theory Spec2Isabelle
  imports Main "HOL-Library.Word" "HOL-Library.Multiset"
begin

unbundle bit_operations_syntax

section \<open>Data model\<close>

text \<open>
  A board is a Python list of rows, each row a list of one-character strings:
  \<open>'X'\<close>, \<open>'O'\<close>, \<open>' '\<close> (empty) and \<open>'-'\<close> (forbidden square).
  A state carries the board and the side to move (\<open>state.board\<close>, \<open>state.whose_move\<close>).
  The class \<open>State\<close> itself lives in \<open>src/game_types.py\<close>, which is not part of the
  sources at hand; only the two attributes the code reads and writes are modelled, and the
  record is extensible so that any further attribute is carried along unchanged, as
  \<open>copy.deepcopy\<close> does.
\<close>

type_synonym board = "string list list"

record state =
  board :: board
  whose_move :: string

text \<open>
  Exceptions are values. \<open>IndexError\<close> is Python's own; \<open>InvalidMove r c\<close> is the
  \<open>ValueError("Invalid Move: Position (r, c) is occupied.")\<close> of \<open>apply_move\<close>;
  \<open>NoValidMoves\<close> is the \<open>ValueError("No valid moves available!")\<close> of \<open>make_move\<close>.
  \<open>Diverges\<close> stands for a \<open>while\<close> loop that never exits (see \<open>count_loop\<close>).
\<close>

datatype error = IndexError | InvalidMove int int | NoValidMoves | Diverges

text \<open>
  Search values are Python numbers: the integers the static evaluator returns, and the
  floats \<open>-math.inf\<close> and \<open>math.inf\<close> that the search starts from; \<open>max\<close>, \<open>min\<close> and
  the comparisons order them as numbers.
\<close>

datatype val = NegInf | Fin int | PosInf

instantiation val :: linorder
begin

fun less_eq_val :: "val \<Rightarrow> val \<Rightarrow> bool" where
  "less_eq_val NegInf _ = True"
| "less_eq_val _ PosInf = True"
| "less_eq_val (Fin a) (Fin b) = (a \<le> b)"
| "less_eq_val _ _ = False"

definition less_val :: "val \<Rightarrow> val \<Rightarrow> bool" where
  "less_val a b \<longleftrightarrow> a \<le> b \<and> \<not> b \<le> a"

instance
proof
  fix x y z :: val
  show "x < y \<longleftrightarrow> x \<le> y \<and> \<not> y \<le> x" by (simp add: less_val_def)
  show "x \<le> x" by (cases x) simp_all
  show "x \<le> y \<Longrightarrow> y \<le> z \<Longrightarrow> x \<le> z" by (cases x; cases y; cases z) simp_all
  show "x \<le> y \<Longrightarrow> y \<le> x \<Longrightarrow> x = y" by (cases x; cases y) simp_all
  show "x \<le> y \<or> y \<le> x" by (cases x; cases y) auto
qed

end

text \<open>
  \<open>Game_Type\<close> (of \<open>src/game_types.py\<close>, not part of the sources at hand) is read for its
  attributes \<open>n\<close> (rows), \<open>m\<close> (columns) and \<open>k\<close>. The agent is the part of \<open>OurAgent\<close> that the
  search reads and writes, once \<open>prepare\<close> has set the game type and the side; the persona,
  the utterances, the turn counter and the timing are left out.
\<close>

record game_type =
  gt_n :: int
  gt_m :: int
  gt_k :: int

record agent =
  playing :: string
  current_game_type :: game_type
  zobrist_keys :: "int \<times> int \<times> string \<Rightarrow> 64 word option"
  transposition_table :: "64 word \<Rightarrow> val option"
  alpha_beta_cutoffs_this_turn :: nat
  num_static_evals_this_turn :: nat
  zobrist_write_count :: nat
  zobrist_read_attempt_count :: nat
  zobrist_hit_count :: nat

subsection \<open>Python list indexing\<close>

text \<open>
  \<open>xs[i]\<close>: an index in \<open>[0, len)\<close> is taken as it is, one in \<open>[-len, 0)\<close> counts from
  the end, anything else raises \<open>IndexError\<close>.
\<close>

definition py_norm :: "nat \<Rightarrow> int \<Rightarrow> nat option" where
  "py_norm n i =
     (if 0 \<le> i \<and> i < int n then Some (nat i)
      else if - int n \<le> i \<and> i < 0 then Some (nat (int n + i))
      else None)"

definition py_index :: "'a list \<Rightarrow> int \<Rightarrow> error + 'a" where
  "py_index xs i =
     (case py_norm (length xs) i of None \<Rightarrow> Inl IndexError | Some j \<Rightarrow> Inr (xs ! j))"

text \<open>\<open>board[r][c]\<close> as an expression.\<close>

definition cell_at :: "board \<Rightarrow> int \<Rightarrow> int \<Rightarrow> error + string" where
  "cell_at b r c = (case py_index b r of Inl e \<Rightarrow> Inl e | Inr row \<Rightarrow> py_index row c)"

text \<open>\<open>board[r][c] = v\<close> as a statement, on a private copy of the board.\<close>

definition set_cell :: "board \<Rightarrow> int \<Rightarrow> int \<Rightarrow> string \<Rightarrow> error + board" where
  "set_cell b r c v =
     (case py_norm (length b) r of
        None \<Rightarrow> Inl IndexError
      | Some i \<Rightarrow>
          (case py_norm (length (b ! i)) c of
             None \<Rightarrow> Inl IndexError
           | Some j \<Rightarrow> Inr (b[i := (b ! i)[j := v]])))"

text \<open>\<open>rows = len(board)\<close> and \<open>cols = len(board[0]) if rows > 0 else 0\<close>.\<close>

definition rows_count :: "board \<Rightarrow> int" where
  "rows_count b = int (length b)"

definition cols_count :: "board \<Rightarrow> int" where
  "cols_count b = (case b of [] \<Rightarrow> 0 | row # _ \<Rightarrow> int (length row))"

text \<open>
\<open>range(a, b)\<close> over the integers.
\<close>

definition py_range :: "int \<Rightarrow> int \<Rightarrow> int list" where
  "py_range a b = [a..b - 1]"

subsection \<open>Addressing cells\<close>

text \<open>
  A move is valid iff it is in bounds and its target cell is empty. In bounds means
  \<open>0 \<le> r < rows\<close> and \<open>0 \<le> c < len(board[r])\<close>.
\<close>

definition in_bounds :: "board \<Rightarrow> int \<Rightarrow> int \<Rightarrow> bool" where
  "in_bounds b r c \<longleftrightarrow> 0 \<le> r \<and> r < int (length b) \<and> 0 \<le> c \<and> c < int (length (b ! nat r))"

text \<open>
  What Python can address: a row index in \<open>[-rows, rows)\<close> and a column index in
  \<open>[-len(row), len(row))\<close> of the row addressed, and the cell found there.
\<close>

definition py_pos :: "nat \<Rightarrow> int \<Rightarrow> nat" where
  "py_pos n i = (if i < 0 then nat (int n + i) else nat i)"

definition addressable :: "board \<Rightarrow> int \<Rightarrow> int \<Rightarrow> bool" where
  "addressable b r c \<longleftrightarrow>
     - int (length b) \<le> r \<and> r < int (length b) \<and>
     - int (length (b ! py_pos (length b) r)) \<le> c \<and> c < int (length (b ! py_pos (length b) r))"

definition addressed_cell :: "board \<Rightarrow> int \<Rightarrow> int \<Rightarrow> string" where
  "addressed_cell b r c =
     b ! py_pos (length b) r ! py_pos (length (b ! py_pos (length b) r)) c"

text \<open>
A rectangular board: every row as long as the first one.
\<close>

definition rect :: "board \<Rightarrow> bool" where
  "rect b \<longleftrightarrow> list_all (\<lambda>row. int (length row) = cols_count b) b"

section \<open>State transition (\<open>OurAgent.apply_move\<close>, \<open>get_available_moves\<close>)\<close>

text \<open>
  \<^verbatim>\<open>
  def apply_move(self, state, move):
      new_state = copy.deepcopy(state)
      r, c = move
      if new_state.board[r][c] != " ":
          raise ValueError(f"Invalid Move: Position ({r}, {c}) is occupied.")
      new_state.board[r][c] = state.whose_move
      new_state.whose_move = "O" if state.whose_move == "X" else "X"
      return new_state
  \<close>
\<close>

definition apply_move :: "'a state_scheme \<Rightarrow> int \<times> int \<Rightarrow> error + 'a state_scheme" where
  "apply_move s mv =
     (case mv of (r, c) \<Rightarrow>
        (case cell_at (board s) r c of
           Inl e \<Rightarrow> Inl e
         | Inr t \<Rightarrow>
             if t \<noteq> '' '' then Inl (InvalidMove r c)
             else (case set_cell (board s) r c (whose_move s) of
                     Inl e \<Rightarrow> Inl e
                   | Inr b' \<Rightarrow>
                       Inr (s\<lparr>board := b',
                              whose_move := (if whose_move s = ''X'' then ''O'' else ''X'')\<rparr>))))"

subsection \<open>The copy made by \<open>apply_move\<close>, on a store of objects\<close>

text \<open>
  \<open>apply_move\<close> works on \<open>new_state = copy.deepcopy(state)\<close> and assigns only through
  \<open>new_state\<close>. To state that the argument is left as it was, the objects are placed in a
  store: a state object refers to its board list and holds \<open>whose_move\<close>, a board list
  refers to its row lists, a row list holds strings (immutable, so held by value). A
  reference is an index into the store and a new object is appended to it.

  \<open>copy.deepcopy\<close> of a state builds a new state object and a new board list. The rows are
  copied in order under the memo dictionary of \<open>deepcopy\<close>: a row list that was already
  copied is not copied again, its copy is reused, so rows that are one object in the
  argument are one object in the copy. The result is \<open>None\<close> when a reference does not lead
  to an object of the expected kind; such a store holds no \<open>State\<close>.
\<close>

datatype obj = StateObj nat string | BoardObj "nat list" | RowObj "string list"

type_synonym store = "obj list"

fun copy_rows ::
  "store \<Rightarrow> (nat \<times> nat) list \<Rightarrow> nat list \<Rightarrow> (store \<times> (nat \<times> nat) list \<times> nat list) option" where
  "copy_rows st memo [] = Some (st, memo, [])"
| "copy_rows st memo (r # rs) =
     (case map_of memo r of
        Some r' \<Rightarrow>
          (case copy_rows st memo rs of
             None \<Rightarrow> None
           | Some (st', memo', rs') \<Rightarrow> Some (st', memo', r' # rs'))
      | None \<Rightarrow>
          (if r < length st then
             (case st ! r of
                RowObj row \<Rightarrow>
                  (case copy_rows (st @ [RowObj row]) ((r, length st) # memo) rs of
                     None \<Rightarrow> None
                   | Some (st', memo', rs') \<Rightarrow> Some (st', memo', length st # rs'))
              | _ \<Rightarrow> None)
           else None))"

definition state_obj :: "store \<Rightarrow> nat \<Rightarrow> (nat \<times> string) option" where
  "state_obj st a =
     (if a < length st then (case st ! a of StateObj b w \<Rightarrow> Some (b, w) | _ \<Rightarrow> None) else None)"

definition board_obj :: "store \<Rightarrow> nat \<Rightarrow> nat list option" where
  "board_obj st b =
     (if b < length st then (case st ! b of BoardObj rs \<Rightarrow> Some rs | _ \<Rightarrow> None) else None)"

definition row_obj :: "store \<Rightarrow> nat \<Rightarrow> string list option" where
  "row_obj st r =
     (if r < length st then (case st ! r of RowObj row \<Rightarrow> Some row | _ \<Rightarrow> None) else None)"

definition deepcopy_state :: "store \<Rightarrow> nat \<Rightarrow> (nat \<times> store) option" where
  "deepcopy_state st a =
     (case state_obj st a of
        None \<Rightarrow> None
      | Some (b, w) \<Rightarrow>
          (case board_obj st b of
             None \<Rightarrow> None
           | Some rs \<Rightarrow>
               (case copy_rows st [] rs of
                  None \<Rightarrow> None
                | Some (st1, memo, rs') \<Rightarrow>
                    Some (Suc (length st1), st1 @ [BoardObj rs', StateObj (length st1) w]))))"

text \<open>
  In \<open>apply_move_store\<close> the cell is read and written through \<open>new_state\<close>, and the token
  and the side to flip are read from \<open>state\<close>, as in the source. \<open>lookup_row\<close> is
  \<open>new_state.board[r]\<close>: the row object and its content, or the \<open>IndexError\<close>.
\<close>

definition lookup_row :: "store \<Rightarrow> nat \<Rightarrow> int \<Rightarrow> (error + nat \<times> string list) option" where
  "lookup_row st state r =
     (case state_obj st state of
        None \<Rightarrow> None
      | Some (b, w) \<Rightarrow>
          (case board_obj st b of
             None \<Rightarrow> None
           | Some rs \<Rightarrow>
               (case py_index rs r of
                  Inl e \<Rightarrow> Some (Inl e)
                | Inr rr \<Rightarrow>
                    (case row_obj st rr of None \<Rightarrow> None | Some row \<Rightarrow> Some (Inr (rr, row))))))"

definition apply_move_store :: "store \<Rightarrow> nat \<Rightarrow> int \<times> int \<Rightarrow> (error + nat \<times> store) option" where
  "apply_move_store st state mv =
     (case mv of (r, c) \<Rightarrow>
        (case deepcopy_state st state of
           None \<Rightarrow> None
         | Some (new_state, st1) \<Rightarrow>
             (case lookup_row st1 new_state r of
                None \<Rightarrow> None
              | Some (Inl e) \<Rightarrow> Some (Inl e)
              | Some (Inr (rr, row)) \<Rightarrow>
                  (case py_index row c of
                     Inl e \<Rightarrow> Some (Inl e)
                   | Inr t \<Rightarrow>
                       if t \<noteq> '' '' then Some (Inl (InvalidMove r c))
                       else
                         (case (state_obj st1 state, state_obj st1 new_state) of
                            (Some (b, w), Some (b1, w1)) \<Rightarrow>
                              Some (Inr (new_state,
                                (st1[rr := RowObj (row[py_pos (length row) c := w])])
                                  [new_state := StateObj b1 (if w = ''X'' then ''O'' else ''X'')]))
                          | _ \<Rightarrow> None)))))"

text \<open>
  \<^verbatim>\<open>
  def get_available_moves(self, state):
      moves = []
      for r in range(len(state.board)):
          for c in range(len(state.board[0])):
              if state.board[r][c] == " ":
                  moves.append((r, c))
      return moves
  \<close>
  The scan order is row-major over \<open>range(len(board)) \<times> range(len(board[0]))\<close>.
\<close>

definition scan_cells :: "board \<Rightarrow> (nat \<times> nat) list" where
  "scan_cells b = concat (map (\<lambda>r. map (\<lambda>c. (r, c)) [0..<nat (cols_count b)]) [0..<length b])"

fun collect_moves :: "board \<Rightarrow> (nat \<times> nat) list \<Rightarrow> error + (int \<times> int) list" where
  "collect_moves b [] = Inr []"
| "collect_moves b ((r, c) # rest) =
     (case cell_at b (int r) (int c) of
        Inl e \<Rightarrow> Inl e
      | Inr t \<Rightarrow>
          (case collect_moves b rest of
             Inl e \<Rightarrow> Inl e
           | Inr ms \<Rightarrow> Inr (if t = '' '' then (int r, int c) # ms else ms)))"

definition get_available_moves :: "'a state_scheme \<Rightarrow> error + (int \<times> int) list" where
  "get_available_moves s = collect_moves (board s) (scan_cells (board s))"

section \<open>Win detector (\<open>winTesterForK.py\<close>)\<close>

text \<open>
  \<^verbatim>\<open>
  def _count_in_direction(board, start_row, start_col, delta_row, delta_col, player, rows, cols):
      count = 0
      current_row = start_row + delta_row
      current_col = start_col + delta_col
      while (0 <= current_row < rows and 0 <= current_col < cols and
             board[current_row][current_col] == player):
          count += 1
          current_row += delta_row
          current_col += delta_col
      return count
  \<close>
  \<open>count_loop\<close> is the \<open>while\<close> loop. With a zero step the position never changes, so the
  loop never exits once its condition holds; the model returns \<open>Inl Diverges\<close> there and
  recurses only when the step moves.
\<close>

function count_loop ::
  "board \<Rightarrow> int \<Rightarrow> int \<Rightarrow> int \<Rightarrow> int \<Rightarrow> string \<Rightarrow> int \<Rightarrow> int \<Rightarrow> nat \<Rightarrow> error + nat" where
  "count_loop b cr cc dr dc player rows cols cnt =
     (if 0 \<le> cr \<and> cr < rows \<and> 0 \<le> cc \<and> cc < cols then
        (case cell_at b cr cc of
           Inl e \<Rightarrow> Inl e
         | Inr t \<Rightarrow>
             if t = player then
               (if dr = 0 \<and> dc = 0 then Inl Diverges
                else count_loop b (cr + dr) (cc + dc) dr dc player rows cols (cnt + 1))
             else Inr cnt)
      else Inr cnt)"
  by pat_completeness auto
termination
  by (relation "measure (\<lambda>(b, cr, cc, dr, dc, player, rows, cols, cnt).
        if 0 < dr then nat (rows - cr) else if dr < 0 then nat (cr + 1)
        else if 0 < dc then nat (cols - cc) else nat (cc + 1))") auto

declare count_loop.simps [simp del]

definition count_in_direction ::
  "board \<Rightarrow> int \<Rightarrow> int \<Rightarrow> int \<Rightarrow> int \<Rightarrow> string \<Rightarrow> int \<Rightarrow> int \<Rightarrow> error + nat" where
  "count_in_direction b start_row start_col dr dc player rows cols =
     count_loop b (start_row + dr) (start_col + dc) dr dc player rows cols 0"

text \<open>
  \<^verbatim>\<open>
  def _is_board_full(board):
      for row in board:
          for cell in row:
              if cell == ' ' or cell == '-':
                  return False
      return True
  \<close>
\<close>

definition is_board_full :: "board \<Rightarrow> bool" where
  "is_board_full b = list_all (\<lambda>row. list_all (\<lambda>cell. \<not> (cell = '' '' \<or> cell = ''-'')) row) b"

text \<open>
  \<open>_check_full_board\<close>: for each player (\<open>X\<close> first), each cell in row-major order that
  holds the player's token is tried as the origin of a horizontal, vertical, diagonal and
  anti-diagonal line of \<open>k\<close> cells, each guarded by its bounds test;
  \<open>all(board[..][..] == player for i in range(k))\<close> stops at the first cell that differs.
\<close>

definition line_cells :: "int \<Rightarrow> int \<Rightarrow> int \<Rightarrow> int \<Rightarrow> int \<Rightarrow> (int \<times> int) list" where
  "line_cells r c dr dc k = map (\<lambda>i. (r + int i * dr, c + int i * dc)) [0..<nat k]"

fun all_equal :: "board \<Rightarrow> string \<Rightarrow> (int \<times> int) list \<Rightarrow> error + bool" where
  "all_equal b player [] = Inr True"
| "all_equal b player ((r, c) # rest) =
     (case cell_at b r c of
        Inl e \<Rightarrow> Inl e
      | Inr t \<Rightarrow> if t = player then all_equal b player rest else Inr False)"

definition check_origin ::
  "board \<Rightarrow> int \<Rightarrow> int \<Rightarrow> int \<Rightarrow> string \<Rightarrow> int \<Rightarrow> int \<Rightarrow> error + bool" where
  "check_origin b k rows cols player row col =
     (case (if col + k \<le> cols then all_equal b player (line_cells row col 0 1 k)
            else Inr False) of
        Inl e \<Rightarrow> Inl e
      | Inr True \<Rightarrow> Inr True
      | Inr False \<Rightarrow>
     (case (if row + k \<le> rows then all_equal b player (line_cells row col 1 0 k)
            else Inr False) of
        Inl e \<Rightarrow> Inl e
      | Inr True \<Rightarrow> Inr True
      | Inr False \<Rightarrow>
     (case (if row + k \<le> rows \<and> col + k \<le> cols
            then all_equal b player (line_cells row col 1 1 k) else Inr False) of
        Inl e \<Rightarrow> Inl e
      | Inr True \<Rightarrow> Inr True
      | Inr False \<Rightarrow>
          (if row + k \<le> rows \<and> 0 \<le> col - k + 1
           then all_equal b player (line_cells row col 1 (- 1) k) else Inr False))))"

fun scan_board ::
  "board \<Rightarrow> int \<Rightarrow> int \<Rightarrow> int \<Rightarrow> (string \<times> nat \<times> nat) list \<Rightarrow> error + string option" where
  "scan_board b k rows cols [] = Inr None"
| "scan_board b k rows cols ((player, row, col) # rest) =
     (case cell_at b (int row) (int col) of
        Inl e \<Rightarrow> Inl e
      | Inr t \<Rightarrow>
          if t = player then
            (case check_origin b k rows cols player (int row) (int col) of
               Inl e \<Rightarrow> Inl e
             | Inr True \<Rightarrow> Inr (Some player)
             | Inr False \<Rightarrow> scan_board b k rows cols rest)
          else scan_board b k rows cols rest)"

definition scan_order :: "board \<Rightarrow> (string \<times> nat \<times> nat) list" where
  "scan_order b =
     concat (map (\<lambda>player. map (\<lambda>(r, c). (player, r, c)) (scan_cells b)) [''X'', ''O''])"

definition check_full_board :: "board \<Rightarrow> int \<Rightarrow> error + string option" where
  "check_full_board b k =
     (case scan_board b k (rows_count b) (cols_count b) (scan_order b) of
        Inl e \<Rightarrow> Inl e
      | Inr (Some player) \<Rightarrow> Inr (Some player)
      | Inr None \<Rightarrow> if is_board_full b then Inr (Some ''draw'') else Inr None)"

text \<open>
  \<open>check_win_condition(state, move, k)\<close> returns \<open>'X'\<close>, \<open>'O'\<close>, \<open>'draw'\<close> or \<open>None\<close>; the
  model returns the same as a \<open>string option\<close>. The four directions are tried in the order
  horizontal, vertical, diagonal, anti-diagonal, and the first that totals at least \<open>k\<close>
  ends the search.
\<close>

definition directions :: "(int \<times> int) list" where
  "directions = [(0, 1), (1, 0), (1, 1), (1, - 1)]"

fun check_axes ::
  "board \<Rightarrow> int \<Rightarrow> int \<Rightarrow> string \<Rightarrow> int \<Rightarrow> int \<Rightarrow> int \<Rightarrow> (int \<times> int) list \<Rightarrow> error + bool" where
  "check_axes b row col player rows cols k [] = Inr False"
| "check_axes b row col player rows cols k ((dr, dc) # ds) =
     (case count_in_direction b row col dr dc player rows cols of
        Inl e \<Rightarrow> Inl e
      | Inr fwd \<Rightarrow>
          (case count_in_direction b row col (- dr) (- dc) player rows cols of
             Inl e \<Rightarrow> Inl e
           | Inr bwd \<Rightarrow>
               if k \<le> 1 + int fwd + int bwd then Inr True
               else check_axes b row col player rows cols k ds))"

definition check_win_condition ::
  "'a state_scheme \<Rightarrow> (int \<times> int) option \<Rightarrow> int \<Rightarrow> error + string option" where
  "check_win_condition s mv k =
     (case mv of
        None \<Rightarrow> check_full_board (board s) k
      | Some (row, col) \<Rightarrow>
          (case cell_at (board s) row col of
             Inl e \<Rightarrow> Inl e
           | Inr player \<Rightarrow>
               if player \<noteq> ''X'' \<and> player \<noteq> ''O'' then Inr None
               else
                 (case check_axes (board s) row col player
                         (rows_count (board s)) (cols_count (board s)) k directions of
                    Inl e \<Rightarrow> Inl e
                  | Inr True \<Rightarrow> Inr (Some player)
                  | Inr False \<Rightarrow>
                      if is_board_full (board s) then Inr (Some ''draw'') else Inr None)))"

section \<open>Static evaluator (\<open>OurAgent.static_eval\<close>)\<close>

text \<open>
  \<^verbatim>\<open>
  def get_all_possible_sequences(self, state, k):
      sequences = []
      board = state.board
      rows, cols = len(board), len(board[0])
      for r in range(rows):
          for c in range(cols - k + 1):
              sequences.append([board[r][c + i] for i in range(k)])
      for c in range(cols):
          for r in range(rows - k + 1):
              sequences.append([board[r + i][c] for i in range(k)])
      for r in range(rows - k + 1):
          for c in range(cols - k + 1):
              sequences.append([board[r + i][c + i] for i in range(k)])
      for r in range(rows - k + 1):
          for c in range(k - 1, cols):
              sequences.append([board[r + i][c - i] for i in range(k)])
      return sequences
  \<close>
  \<open>all_lines\<close> lists the cells of each list comprehension in the order of the four loops;
  \<open>read_lines\<close> evaluates them, raising at the first cell that cannot be read.
  \<open>len(board[0])\<close> raises \<open>IndexError\<close> on a board with no row.
\<close>

fun read_cells :: "board \<Rightarrow> (int \<times> int) list \<Rightarrow> error + string list" where
  "read_cells b [] = Inr []"
| "read_cells b ((r, c) # rest) =
     (case cell_at b r c of
        Inl e \<Rightarrow> Inl e
      | Inr t \<Rightarrow> (case read_cells b rest of Inl e \<Rightarrow> Inl e | Inr ts \<Rightarrow> Inr (t # ts)))"

fun read_lines :: "board \<Rightarrow> (int \<times> int) list list \<Rightarrow> error + string list list" where
  "read_lines b [] = Inr []"
| "read_lines b (ln # rest) =
     (case read_cells b ln of
        Inl e \<Rightarrow> Inl e
      | Inr sq \<Rightarrow> (case read_lines b rest of Inl e \<Rightarrow> Inl e | Inr sqs \<Rightarrow> Inr (sq # sqs)))"

definition all_lines :: "int \<Rightarrow> int \<Rightarrow> int \<Rightarrow> (int \<times> int) list list" where
  "all_lines rows cols k =
     concat (map (\<lambda>r. map (\<lambda>c. line_cells r c 0 1 k) (py_range 0 (cols - k + 1)))
               (py_range 0 rows)) @
     concat (map (\<lambda>c. map (\<lambda>r. line_cells r c 1 0 k) (py_range 0 (rows - k + 1)))
               (py_range 0 cols)) @
     concat (map (\<lambda>r. map (\<lambda>c. line_cells r c 1 1 k) (py_range 0 (cols - k + 1)))
               (py_range 0 (rows - k + 1))) @
     concat (map (\<lambda>r. map (\<lambda>c. line_cells r c 1 (- 1) k) (py_range (k - 1) cols))
               (py_range 0 (rows - k + 1)))"

definition get_all_possible_sequences :: "'a state_scheme \<Rightarrow> int \<Rightarrow> error + string list list" where
  "get_all_possible_sequences s k =
     (case board s of
        [] \<Rightarrow> Inl IndexError
      | row0 # _ \<Rightarrow> read_lines (board s) (all_lines (int (length (board s))) (int (length row0)) k))"

text \<open>
  \<^verbatim>\<open>
  def count_sequences(self, state, player):
      count = 0
      sequences = self.get_all_possible_sequences(state, self.current_game_type.k)
      for seq in sequences:
          if seq.count(player) == self.current_game_type.k:
              count += 1000
          elif (seq.count(player) == self.current_game_type.k - 1 and seq.count(" ") == 1):
              count += 50
          elif (seq.count(player) == self.current_game_type.k - 2 and seq.count(" ") == 2):
              count += 10
      return count

  def static_eval(self, state, game_type=None):
      x_score = self.count_sequences(state, "X")
      o_score = self.count_sequences(state, "O")
      return x_score - o_score
  \<close>
\<close>

definition sequence_score :: "int \<Rightarrow> string \<Rightarrow> string list \<Rightarrow> int" where
  "sequence_score k player sq =
     (if int (count_list sq player) = k then 1000
      else if int (count_list sq player) = k - 1 \<and> count_list sq '' '' = 1 then 50
      else if int (count_list sq player) = k - 2 \<and> count_list sq '' '' = 2 then 10
      else 0)"

definition count_sequences :: "'b agent_scheme \<Rightarrow> 'a state_scheme \<Rightarrow> string \<Rightarrow> error + int" where
  "count_sequences ag s player =
     (case get_all_possible_sequences s (gt_k (current_game_type ag)) of
        Inl e \<Rightarrow> Inl e
      | Inr sequences \<Rightarrow>
          Inr (fold (\<lambda>sq count. count + sequence_score (gt_k (current_game_type ag)) player sq)
                 sequences 0))"

definition static_eval :: "'b agent_scheme \<Rightarrow> 'a state_scheme \<Rightarrow> error + int" where
  "static_eval ag s =
     (case count_sequences ag s ''X'' of
        Inl e \<Rightarrow> Inl e
      | Inr x_score \<Rightarrow>
          (case count_sequences ag s ''O'' of
             Inl e \<Rightarrow> Inl e
           | Inr o_score \<Rightarrow> Inr (x_score - o_score)))"

section \<open>Position hash (\<open>init_zobrist\<close>, \<open>compute_zobrist\<close>)\<close>

text \<open>
  \<^verbatim>\<open>
  def compute_zobrist(self, state):
      h = 0
      board = state.board
      for r in range(len(board)):
          for c in range(len(board[0])):
              token = board[r][c]
              if token in ["X", "O"]:
                  h ^= self.zobrist_keys.get((r, c, token), 0)
      return h
  \<close>
  The keys are 64-bit (\<open>random.getrandbits(64)\<close>), so every value of \<open>h\<close> is a 64-bit word.
\<close>

fun zobrist_loop ::
  "(int \<times> int \<times> string \<Rightarrow> 64 word option) \<Rightarrow> board \<Rightarrow> (nat \<times> nat) list \<Rightarrow> 64 word \<Rightarrow> error + 64 word" where
  "zobrist_loop keys b [] h = Inr h"
| "zobrist_loop keys b ((r, c) # rest) h =
     (case cell_at b (int r) (int c) of
        Inl e \<Rightarrow> Inl e
      | Inr token \<Rightarrow>
          zobrist_loop keys b rest
            (if token = ''X'' \<or> token = ''O''
             then h XOR (case keys (int r, int c, token) of None \<Rightarrow> 0 | Some key \<Rightarrow> key)
             else h))"

definition compute_zobrist :: "agent \<Rightarrow> 'a state_scheme \<Rightarrow> error + 64 word" where
  "compute_zobrist ag s = zobrist_loop (zobrist_keys ag) (board s) (scan_cells (board s)) 0"

text \<open>
  \<^verbatim>\<open>
  def init_zobrist(self):
      n = self.current_game_type.n  # number of rows
      m = self.current_game_type.m  # number of columns
      self.zobrist_keys = {}
      for r in range(n):
          for c in range(m):
              for token in ["X", "O"]:
                  self.zobrist_keys[(r, c, token)] = random.getrandbits(64)
      self.transposition_table = {}
      self.zobrist_write_count = 0
      self.zobrist_read_attempt_count = 0
      self.zobrist_hit_count = 0
  \<close>
  The random source is a parameter: \<open>draw (r, c, token)\<close> is the value \<open>getrandbits\<close>
  returns for that key. \<open>prepare\<close> is \<open>OurAgent()\<close> followed by
  \<open>prepare(game_type, what_side_to_play, ...)\<close>, which sets the game type and the side and
  calls \<open>init_zobrist\<close>.
\<close>

definition init_zobrist :: "(int \<times> int \<times> string \<Rightarrow> 64 word) \<Rightarrow> agent \<Rightarrow> agent" where
  "init_zobrist draw ag =
     ag\<lparr>zobrist_keys :=
          (\<lambda>(r, c, token).
             if 0 \<le> r \<and> r < gt_n (current_game_type ag) \<and>
                0 \<le> c \<and> c < gt_m (current_game_type ag) \<and> (token = ''X'' \<or> token = ''O'')
             then Some (draw (r, c, token)) else None),
        transposition_table := (\<lambda>_. None),
        zobrist_write_count := 0,
        zobrist_read_attempt_count := 0,
        zobrist_hit_count := 0\<rparr>"

definition prepare :: "game_type \<Rightarrow> string \<Rightarrow> (int \<times> int \<times> string \<Rightarrow> 64 word) \<Rightarrow> agent" where
  "prepare game what_side_to_play draw =
     init_zobrist draw
       \<lparr>playing = what_side_to_play, current_game_type = game,
        zobrist_keys = (\<lambda>_. None), transposition_table = (\<lambda>_. None),
        alpha_beta_cutoffs_this_turn = 0, num_static_evals_this_turn = 0,
        zobrist_write_count = 0, zobrist_read_attempt_count = 0, zobrist_hit_count = 0\<rparr>"

section \<open>Move search (\<open>is_terminal\<close>, \<open>minimax\<close>, \<open>make_move\<close>)\<close>

text \<open>
  \<^verbatim>\<open>
  def is_terminal(self, state):
      k = self.current_game_type.k if self.current_game_type else None
      ...
      board = state.board
      H = len(board)
      W = len(board[0]) if H else 0
      for r in range(H):
          for c in range(W):
              if board[r][c] in ('X', 'O'):
                  if winTesterForK(state, (r, c), k) != "No win":
                      return True
      # draw if no spaces left
      for row in board:
          if ' ' in row:
              return False
      return True
  \<close>
  \<open>winTesterForK\<close> is \<open>check_win_condition\<close> (the alias at the end of
  \<open>winTesterForK.py\<close>); its result is compared with the string \<open>"No win"\<close>.
\<close>

fun terminal_scan :: "'a state_scheme \<Rightarrow> int \<Rightarrow> (nat \<times> nat) list \<Rightarrow> error + bool" where
  "terminal_scan s k [] = Inr False"
| "terminal_scan s k ((r, c) # rest) =
     (case cell_at (board s) (int r) (int c) of
        Inl e \<Rightarrow> Inl e
      | Inr t \<Rightarrow>
          if t = ''X'' \<or> t = ''O'' then
            (case check_win_condition s (Some (int r, int c)) k of
               Inl e \<Rightarrow> Inl e
             | Inr res \<Rightarrow>
                 if res \<noteq> Some ''No win'' then Inr True else terminal_scan s k rest)
          else terminal_scan s k rest)"

definition is_terminal :: "agent \<Rightarrow> 'a state_scheme \<Rightarrow> error + bool" where
  "is_terminal ag s =
     (case terminal_scan s (gt_k (current_game_type ag)) (scan_cells (board s)) of
        Inl e \<Rightarrow> Inl e
      | Inr True \<Rightarrow> Inr True
      | Inr False \<Rightarrow> Inr (list_all (\<lambda>row. '' '' \<notin> set row) (board s)))"

text \<open>
  The children of a node, as both \<open>minimax\<close> and \<open>make_move\<close> build them: every available
  move is applied and the child scored with \<open>static_eval\<close>; the list is then sorted by that
  score with Python's stable \<open>sort\<close>, descending (\<open>reverse=True\<close>) for \<open>X\<close> and ascending
  otherwise.
\<close>

fun evaluate_children ::
  "agent \<Rightarrow> 'a state_scheme \<Rightarrow> (int \<times> int) list \<Rightarrow>
   error + ((int \<times> int) \<times> 'a state_scheme \<times> int) list" where
  "evaluate_children ag s [] = Inr []"
| "evaluate_children ag s (mv # moves) =
     (case apply_move s mv of
        Inl e \<Rightarrow> Inl e
      | Inr child_state \<Rightarrow>
          (case static_eval ag child_state of
             Inl e \<Rightarrow> Inl e
           | Inr child_eval \<Rightarrow>
               (case evaluate_children ag s moves of
                  Inl e \<Rightarrow> Inl e
                | Inr cl \<Rightarrow> Inr ((mv, child_state, child_eval) # cl))))"

definition sort_children ::
  "string \<Rightarrow> ((int \<times> int) \<times> 'a \<times> int) list \<Rightarrow> ((int \<times> int) \<times> 'a \<times> int) list" where
  "sort_children player cl =
     (if player = ''X'' then sort_key (\<lambda>x. - snd (snd x)) cl else sort_key (\<lambda>x. snd (snd x)) cl)"

definition ordered_children ::
  "agent \<Rightarrow> 'a state_scheme \<Rightarrow> string \<Rightarrow> bool \<Rightarrow>
   error + ((int \<times> int) \<times> 'a state_scheme \<times> int) list" where
  "ordered_children ag s player order_moves =
     (case get_available_moves s of
        Inl e \<Rightarrow> Inl e
      | Inr moves \<Rightarrow>
          (case evaluate_children ag s moves of
             Inl e \<Rightarrow> Inl e
           | Inr cl \<Rightarrow> Inr (if order_moves then sort_children player cl else cl)))"

text \<open>
  The two loops over the children in \<open>minimax\<close>. For the maximiser:
  \<^verbatim>\<open>
  best_value = -math.inf
  for move, child_state, _ in child_list:
      value = self.minimax(child_state, depth_remaining - 1, pruning, alpha, beta,
                           use_zobrist, order_moves)
      best_value = max(best_value, value)
      if pruning:
          alpha = max(alpha, best_value)
          if beta <= alpha:
              self.alpha_beta_cutoffs_this_turn += 1
              break
  \<close>
  and for the minimiser the same with \<open>min\<close> and \<open>beta = min(beta, best_value)\<close>. The
  recursive call is the parameter \<open>f\<close>; the agent is threaded through, since the calls
  update its counters and its transposition table.
\<close>

definition add_cutoff :: "agent \<Rightarrow> agent" where
  "add_cutoff ag = ag\<lparr>alpha_beta_cutoffs_this_turn := alpha_beta_cutoffs_this_turn ag + 1\<rparr>"

fun max_loop ::
  "('s \<Rightarrow> val \<Rightarrow> val \<Rightarrow> agent \<Rightarrow> error + val \<times> agent) \<Rightarrow> bool \<Rightarrow> 's list \<Rightarrow>
   val \<Rightarrow> val \<Rightarrow> val \<Rightarrow> agent \<Rightarrow> error + val \<times> agent" where
  "max_loop f pruning [] alpha beta best_value ag = Inr (best_value, ag)"
| "max_loop f pruning (child # rest) alpha beta best_value ag =
     (case f child alpha beta ag of
        Inl e \<Rightarrow> Inl e
      | Inr (v, ag1) \<Rightarrow>
          if pruning then
            (if beta \<le> max alpha (max best_value v) then Inr (max best_value v, add_cutoff ag1)
             else max_loop f pruning rest (max alpha (max best_value v)) beta (max best_value v) ag1)
          else max_loop f pruning rest alpha beta (max best_value v) ag1)"

fun min_loop ::
  "('s \<Rightarrow> val \<Rightarrow> val \<Rightarrow> agent \<Rightarrow> error + val \<times> agent) \<Rightarrow> bool \<Rightarrow> 's list \<Rightarrow>
   val \<Rightarrow> val \<Rightarrow> val \<Rightarrow> agent \<Rightarrow> error + val \<times> agent" where
  "min_loop f pruning [] alpha beta best_value ag = Inr (best_value, ag)"
| "min_loop f pruning (child # rest) alpha beta best_value ag =
     (case f child alpha beta ag of
        Inl e \<Rightarrow> Inl e
      | Inr (v, ag1) \<Rightarrow>
          if pruning then
            (if min beta (min best_value v) \<le> alpha then Inr (min best_value v, add_cutoff ag1)
             else min_loop f pruning rest alpha (min beta (min best_value v)) (min best_value v) ag1)
          else min_loop f pruning rest alpha beta (min best_value v) ag1)"

text \<open>
  The leaf case (\<open>self.num_static_evals_this_turn += 1; return self.static_eval(state)\<close>),
  the transposition-table lookup at the head of \<open>minimax\<close> and the store at its end.
\<close>

definition leaf_eval :: "agent \<Rightarrow> 'a state_scheme \<Rightarrow> error + val \<times> agent" where
  "leaf_eval ag s =
     (case static_eval ag s of
        Inl e \<Rightarrow> Inl e
      | Inr v \<Rightarrow> Inr (Fin v, ag\<lparr>num_static_evals_this_turn := num_static_evals_this_turn ag + 1\<rparr>))"

definition table_lookup ::
  "agent \<Rightarrow> 'a state_scheme \<Rightarrow> bool \<Rightarrow> error + (64 word option \<times> val option \<times> agent)" where
  "table_lookup ag s use_zobrist =
     (if use_zobrist then
        (case compute_zobrist ag s of
           Inl e \<Rightarrow> Inl e
         | Inr h \<Rightarrow>
             (case transposition_table ag h of
                Some v \<Rightarrow>
                  Inr (Some h, Some v,
                       ag\<lparr>zobrist_read_attempt_count := zobrist_read_attempt_count ag + 1,
                          zobrist_hit_count := zobrist_hit_count ag + 1\<rparr>)
              | None \<Rightarrow>
                  Inr (Some h, None,
                       ag\<lparr>zobrist_read_attempt_count := zobrist_read_attempt_count ag + 1\<rparr>)))
      else Inr (None, None, ag))"

definition table_store :: "agent \<Rightarrow> 64 word option \<Rightarrow> val \<Rightarrow> agent" where
  "table_store ag h best_value =
     (case h of
        None \<Rightarrow> ag
      | Some hv \<Rightarrow>
          ag\<lparr>transposition_table := (transposition_table ag)(hv \<mapsto> best_value),
             zobrist_write_count := zobrist_write_count ag + 1\<rparr>)"

text \<open>
  The recursion of \<open>minimax\<close> is bounded by the board, not by \<open>depth_remaining\<close> (which
  never reaches 0 when it starts negative): every child has one empty cell fewer than its
  parent, except that a state whose \<open>whose_move\<close> is itself \<open>" "\<close> writes a blank once.
\<close>

definition state_measure :: "'a state_scheme \<Rightarrow> nat" where
  "state_measure s =
     2 * count_list (concat (board s)) '' '' + (if whose_move s = '' '' then 1 else 0)"

subsection \<open>Facts about indexing and moves\<close>

lemma py_norm_Some_iff: "py_norm n i = Some j \<longleftrightarrow> - int n \<le> i \<and> i < int n \<and> j = py_pos n i"
  by (auto simp: py_norm_def py_pos_def)

lemma py_norm_None_iff: "py_norm n i = None \<longleftrightarrow> \<not> (- int n \<le> i \<and> i < int n)"
  by (auto simp: py_norm_def)

lemma py_pos_less: "- int n \<le> i \<Longrightarrow> i < int n \<Longrightarrow> py_pos n i < n"
  by (auto simp: py_pos_def)

lemma py_pos_nonneg [simp]: "0 \<le> i \<Longrightarrow> py_pos n i = nat i"
  by (simp add: py_pos_def)

lemma py_index_eq:
  "py_index xs i =
     (if - int (length xs) \<le> i \<and> i < int (length xs) then Inr (xs ! py_pos (length xs) i)
      else Inl IndexError)"
  by (auto simp: py_index_def py_norm_def py_pos_def)

lemma cell_at_addressable:
  "cell_at b r c = (if addressable b r c then Inr (addressed_cell b r c) else Inl IndexError)"
  by (simp add: cell_at_def py_index_eq addressable_def addressed_cell_def)

lemma py_norm_eq:
  "py_norm n i = (if - int n \<le> i \<and> i < int n then Some (py_pos n i) else None)"
  by (auto simp: py_norm_def py_pos_def)

lemma set_cell_addressable:
  "addressable b r c \<Longrightarrow>
   set_cell b r c v =
     Inr (b[py_pos (length b) r :=
            (b ! py_pos (length b) r)[py_pos (length (b ! py_pos (length b) r)) c := v]])"
  by (simp add: set_cell_def addressable_def py_norm_eq)

lemma in_bounds_addressable: "in_bounds b r c \<Longrightarrow> addressable b r c"
  by (auto simp: in_bounds_def addressable_def)

lemma in_bounds_addressed: "in_bounds b r c \<Longrightarrow> addressed_cell b r c = b ! nat r ! nat c"
  by (auto simp: in_bounds_def addressed_cell_def)

lemma cell_at_in_bounds: "in_bounds b r c \<Longrightarrow> cell_at b r c = Inr (b ! nat r ! nat c)"
  by (simp add: cell_at_addressable in_bounds_addressable in_bounds_addressed)

lemma apply_move_cases:
  "apply_move s (r, c) =
     (if \<not> addressable (board s) r c then Inl IndexError
      else if addressed_cell (board s) r c \<noteq> '' '' then Inl (InvalidMove r c)
      else Inr (s\<lparr>board := (board s)[py_pos (length (board s)) r :=
                   (board s ! py_pos (length (board s)) r)
                     [py_pos (length (board s ! py_pos (length (board s)) r)) c := whose_move s]],
                 whose_move := (if whose_move s = ''X'' then ''O'' else ''X'')\<rparr>))"
  by (simp add: apply_move_def cell_at_addressable set_cell_addressable)

subsection \<open>Termination of the search\<close>

lemma max_loop_cong [fundef_cong]:
  assumes "cs = cs'" and "pruning = pruning'" and "alpha = alpha'" and "beta = beta'"
    and "best = best'" and "ag = ag'"
    and "\<And>c a b g. c \<in> set cs' \<Longrightarrow> f c a b g = f' c a b g"
  shows "max_loop f pruning cs alpha beta best ag = max_loop f' pruning' cs' alpha' beta' best' ag'"
  unfolding assms(1-6) using assms(7)
  by (induction cs' arbitrary: alpha' beta' best' ag') (auto split: sum.splits)

lemma min_loop_cong [fundef_cong]:
  assumes "cs = cs'" and "pruning = pruning'" and "alpha = alpha'" and "beta = beta'"
    and "best = best'" and "ag = ag'"
    and "\<And>c a b g. c \<in> set cs' \<Longrightarrow> f c a b g = f' c a b g"
  shows "min_loop f pruning cs alpha beta best ag = min_loop f' pruning' cs' alpha' beta' best' ag'"
  unfolding assms(1-6) using assms(7)
  by (induction cs' arbitrary: alpha' beta' best' ag') (auto split: sum.splits)

lemma count_list_update:
  "j < length row \<Longrightarrow>
   count_list (row[j := v]) t + (if row ! j = t then 1 else 0) =
   count_list row t + (if v = t then 1 else 0)"
proof (induction row arbitrary: j)
  case Nil
  then show ?case by simp
next
  case (Cons x row)
  show ?case
  proof (cases j)
    case 0
    then show ?thesis by simp
  next
    case (Suc j')
    with Cons.prems have "j' < length row" by simp
    from Cons.IH [OF this] show ?thesis by (auto simp: Suc split: if_splits)
  qed
qed

lemma count_list_append [simp]: "count_list (xs @ ys) t = count_list xs t + count_list ys t"
  by (induction xs) simp_all

lemma count_concat_update:
  "i < length b \<Longrightarrow> j < length (b ! i) \<Longrightarrow>
   count_list (concat (b[i := (b ! i)[j := v]])) t + (if b ! i ! j = t then 1 else 0) =
   count_list (concat b) t + (if v = t then 1 else 0)"
proof (induction b arbitrary: i)
  case Nil
  then show ?case by simp
next
  case (Cons row b)
  show ?case
  proof (cases i)
    case 0
    with Cons.prems count_list_update [of j row v t] show ?thesis by auto
  next
    case (Suc i')
    with Cons.prems Cons.IH [of i'] show ?thesis by auto
  qed
qed

lemma apply_move_measure:
  assumes "apply_move s mv = Inr s'"
  shows "state_measure s' < state_measure s"
proof -
  obtain r c where mv: "mv = (r, c)" by (cases mv)
  let ?i = "py_pos (length (board s)) r"
  let ?j = "py_pos (length (board s ! ?i)) c"
  from assms have a: "addressable (board s) r c" and e: "addressed_cell (board s) r c = '' ''"
    and b': "board s' = (board s)[?i := (board s ! ?i)[?j := whose_move s]]"
    and w': "whose_move s' = (if whose_move s = ''X'' then ''O'' else ''X'')"
    by (auto simp: mv apply_move_cases split: if_splits)
  from a have i: "?i < length (board s)" and j: "?j < length (board s ! ?i)"
    by (auto simp: addressable_def py_pos_def)
  from e have cell: "board s ! ?i ! ?j = '' ''" by (simp add: addressed_cell_def)
  from count_concat_update [OF i j, of "whose_move s" "'' ''"] cell
  have "count_list (concat (board s')) '' '' + 1 =
        count_list (concat (board s)) '' '' + (if whose_move s = '' '' then 1 else 0)"
    by (simp add: b')
  then show ?thesis
    by (auto simp: state_measure_def w' split: if_splits)
qed

lemma evaluate_children_applied:
  "evaluate_children ag s moves = Inr cl \<Longrightarrow> x \<in> set cl \<Longrightarrow>
   fst x \<in> set moves \<and> apply_move s (fst x) = Inr (fst (snd x)) \<and>
   static_eval ag (fst (snd x)) = Inr (snd (snd x))"
  by (induction moves arbitrary: cl) (auto split: sum.splits)

lemma set_sort_children [simp]: "set (sort_children p cl) = set cl"
  by (simp add: sort_children_def)

lemma ordered_children_applied:
  assumes "ordered_children ag s p om = Inr cl" and "x \<in> set cl"
  shows "apply_move s (fst x) = Inr (fst (snd x)) \<and> static_eval ag (fst (snd x)) = Inr (snd (snd x))"
  using assms evaluate_children_applied [of ag s _ _ x]
  by (auto simp: ordered_children_def split: sum.splits if_splits)

lemma child_measure:
  assumes "ordered_children ag s p om = Inr cl" and "(mv, c, e) \<in> set cl"
  shows "state_measure c < state_measure s"
  using ordered_children_applied [OF assms] apply_move_measure [of s mv c] by simp

text \<open>
  \<^verbatim>\<open>
  def minimax(self, state, depth_remaining, pruning=False, alpha=None, beta=None,
              use_zobrist=False, order_moves=True):
      if depth_remaining == 0 or self.is_terminal(state):
          self.num_static_evals_this_turn += 1
          return self.static_eval(state)
      if use_zobrist:
          h = self.compute_zobrist(state)
          self.zobrist_read_attempt_count += 1
          if h in self.transposition_table:
              self.zobrist_hit_count += 1
              return self.transposition_table[h]
      ...
      current_player = state.whose_move
      moves = self.get_available_moves(state)
      child_list = [...]       # (move, child_state, eval_value), sorted if order_moves
      if current_player == "X":
          ...                  # the maximiser's loop
      else:
          ...                  # the minimiser's loop
      if use_zobrist:
          self.transposition_table[h] = best_value
          self.zobrist_write_count += 1
      return best_value
  \<close>
  \<open>make_move\<close> always passes \<open>alpha\<close> and \<open>beta\<close>, so they are values here.
\<close>

function minimax ::
  "agent \<Rightarrow> 'a state_scheme \<Rightarrow> int \<Rightarrow> bool \<Rightarrow> val \<Rightarrow> val \<Rightarrow> bool \<Rightarrow> bool \<Rightarrow> error + val \<times> agent" where
  "minimax ag s depth_remaining pruning alpha beta use_zobrist order_moves =
     (case (if depth_remaining = 0 then Inr True else is_terminal ag s) of
        Inl e \<Rightarrow> Inl e
      | Inr True \<Rightarrow> leaf_eval ag s
      | Inr False \<Rightarrow>
          (case table_lookup ag s use_zobrist of
             Inl e \<Rightarrow> Inl e
           | Inr (h, Some v, ag1) \<Rightarrow> Inr (v, ag1)
           | Inr (h, None, ag1) \<Rightarrow>
               (case ordered_children ag1 s (whose_move s) order_moves of
                  Inl e \<Rightarrow> Inl e
                | Inr child_list \<Rightarrow>
                    (case (if whose_move s = ''X''
                           then max_loop
                                  (\<lambda>c a b g. minimax g c (depth_remaining - 1) pruning a b
                                               use_zobrist order_moves)
                                  pruning (map (\<lambda>x. fst (snd x)) child_list) alpha beta NegInf ag1
                           else min_loop
                                  (\<lambda>c a b g. minimax g c (depth_remaining - 1) pruning a b
                                               use_zobrist order_moves)
                                  pruning (map (\<lambda>x. fst (snd x)) child_list) alpha beta PosInf ag1) of
                       Inl e \<Rightarrow> Inl e
                     | Inr (best_value, ag2) \<Rightarrow> Inr (best_value, table_store ag2 h best_value)))))"
  by pat_completeness auto
termination
  by (relation "measure (\<lambda>(ag, s, d, pruning, alpha, beta, uz, om). state_measure s)")
     (auto intro: child_measure)

declare minimax.simps [simp del]

text \<open>
  \<^verbatim>\<open>
  alpha = -math.inf
  beta = math.inf
  best_move = None
  if self.playing == "X":
      best_value = -math.inf
  else:
      best_value = math.inf
  available_moves = self.get_available_moves(current_state)
  ordered_children = [...]   # as above, sorted by self.playing
  for move, candidate_state, child_eval in ordered_children:
      value = self.minimax(candidate_state, max_ply - 1, use_alpha_beta, alpha, beta,
                           use_zobrist=use_zobrist_hashing, order_moves=True)
      if self.playing == "X" and value > best_value:
          best_value = value
          best_move = move
          alpha = max(alpha, value)
      elif self.playing == "O" and value < best_value:
          best_value = value
          best_move = move
          beta = min(beta, value)
      if use_alpha_beta and beta <= alpha:
          self.alpha_beta_cutoffs_this_turn += 1
          break
  if best_move is None:
      if not available_moves:
          raise ValueError("No valid moves available!")
      best_move = random.choice(available_moves)
  new_state = self.apply_move(current_state, best_move)
  ...
  return [[best_move, new_state], new_remark]
  \<close>
  \<open>root_search\<close> is the part up to the end of the loop; \<open>make_move\<close> adds the choice of the
  move and its application. \<open>random.choice(available_moves)\<close> is
  \<open>available_moves[i]\<close> for a random \<open>i\<close> below the length; the draw is the parameter
  \<open>rnd\<close>. The model returns the move, the new state, \<open>best_value\<close> (the root value, which
  the source hands to the remark generator) and the agent; the remark is left out.
\<close>

fun root_loop ::
  "agent \<Rightarrow> string \<Rightarrow> bool \<Rightarrow> bool \<Rightarrow> int \<Rightarrow> ((int \<times> int) \<times> 'a state_scheme \<times> int) list \<Rightarrow>
   val \<Rightarrow> val \<Rightarrow> val \<Rightarrow> (int \<times> int) option \<Rightarrow> error + val \<times> (int \<times> int) option \<times> agent" where
  "root_loop ag side use_alpha_beta use_zobrist max_ply [] alpha beta best_value best_move =
     Inr (best_value, best_move, ag)"
| "root_loop ag side use_alpha_beta use_zobrist max_ply ((mv, candidate_state, child_eval) # rest)
     alpha beta best_value best_move =
     (case minimax ag candidate_state (max_ply - 1) use_alpha_beta alpha beta use_zobrist True of
        Inl e \<Rightarrow> Inl e
      | Inr (v, ag1) \<Rightarrow>
          if side = ''X'' \<and> best_value < v then
            (if use_alpha_beta \<and> beta \<le> max alpha v then Inr (v, Some mv, add_cutoff ag1)
             else root_loop ag1 side use_alpha_beta use_zobrist max_ply rest
                    (max alpha v) beta v (Some mv))
          else if side = ''O'' \<and> v < best_value then
            (if use_alpha_beta \<and> min beta v \<le> alpha then Inr (v, Some mv, add_cutoff ag1)
             else root_loop ag1 side use_alpha_beta use_zobrist max_ply rest
                    alpha (min beta v) v (Some mv))
          else
            (if use_alpha_beta \<and> beta \<le> alpha then Inr (best_value, best_move, add_cutoff ag1)
             else root_loop ag1 side use_alpha_beta use_zobrist max_ply rest
                    alpha beta best_value best_move))"

definition reset_turn :: "agent \<Rightarrow> agent" where
  "reset_turn ag = ag\<lparr>alpha_beta_cutoffs_this_turn := 0, num_static_evals_this_turn := 0\<rparr>"

definition root_search ::
  "agent \<Rightarrow> 'a state_scheme \<Rightarrow> bool \<Rightarrow> bool \<Rightarrow> int \<Rightarrow>
   error + (int \<times> int) list \<times> val \<times> (int \<times> int) option \<times> agent" where
  "root_search ag current_state use_alpha_beta use_zobrist_hashing max_ply =
     (case get_available_moves current_state of
        Inl e \<Rightarrow> Inl e
      | Inr available_moves \<Rightarrow>
          (case evaluate_children (reset_turn ag) current_state available_moves of
             Inl e \<Rightarrow> Inl e
           | Inr cl \<Rightarrow>
               (case root_loop (reset_turn ag) (playing ag) use_alpha_beta use_zobrist_hashing
                       max_ply (sort_children (playing ag) cl) NegInf PosInf
                       (if playing ag = ''X'' then NegInf else PosInf) None of
                  Inl e \<Rightarrow> Inl e
                | Inr (best_value, best_move, ag1) \<Rightarrow>
                    Inr (available_moves, best_value, best_move, ag1))))"

definition make_move ::
  "agent \<Rightarrow> 'a state_scheme \<Rightarrow> bool \<Rightarrow> bool \<Rightarrow> int \<Rightarrow> nat \<Rightarrow>
   error + (int \<times> int) \<times> 'a state_scheme \<times> val \<times> agent" where
  "make_move ag current_state use_alpha_beta use_zobrist_hashing max_ply rnd =
     (case root_search ag current_state use_alpha_beta use_zobrist_hashing max_ply of
        Inl e \<Rightarrow> Inl e
      | Inr (available_moves, best_value, best_move, ag1) \<Rightarrow>
          (case (case best_move of
                   Some mv \<Rightarrow> Inr mv
                 | None \<Rightarrow>
                     if available_moves = [] then Inl NoValidMoves
                     else Inr (available_moves ! (rnd mod length available_moves))) of
             Inl e \<Rightarrow> Inl e
           | Inr mv \<Rightarrow>
               (case apply_move current_state mv of
                  Inl e \<Rightarrow> Inl e
                | Inr new_state \<Rightarrow> Inr (mv, new_state, best_value, ag1))))"

text \<open>
The move, the new state and the root value of a result, without the agent.
\<close>

definition move_outcome ::
  "error + (int \<times> int) \<times> 'a state_scheme \<times> val \<times> agent \<Rightarrow>
   error + (int \<times> int) \<times> 'a state_scheme \<times> val" where
  "move_outcome r = map_sum id (\<lambda>(mv, s, v, ag). (mv, s, v)) r"

definition search_outcome ::
  "error + (int \<times> int) list \<times> val \<times> (int \<times> int) option \<times> agent \<Rightarrow>
   error + (int \<times> int) list \<times> val \<times> (int \<times> int) option" where
  "search_outcome r = map_sum id (\<lambda>(ms, v, bm, ag). (ms, v, bm)) r"

section \<open>Vocabulary of the specification\<close>

text \<open>Cell \<open>(r, c)\<close> is on the board and holds token \<open>p\<close>.\<close>

definition holds :: "board \<Rightarrow> string \<Rightarrow> int \<Rightarrow> int \<Rightarrow> bool" where
  "holds b p r c \<longleftrightarrow> in_bounds b r c \<and> b ! nat r ! nat c = p"

text \<open>
  Exactly \<open>n\<close> contiguous cells holding \<open>p\<close> extend from \<open>(r, c)\<close> (not counted) in
  direction \<open>(dr, dc)\<close>: cells \<open>1..n\<close> along the direction hold \<open>p\<close>, and cell \<open>n + 1\<close>
  is off the board or holds something else.
\<close>

definition run_of :: "board \<Rightarrow> string \<Rightarrow> int \<Rightarrow> int \<Rightarrow> int \<Rightarrow> int \<Rightarrow> nat \<Rightarrow> bool" where
  "run_of b p r c dr dc n \<longleftrightarrow>
     (\<forall>i \<in> {1..int n}. holds b p (r + i * dr) (c + i * dc)) \<and>
     \<not> holds b p (r + (int n + 1) * dr) (c + (int n + 1) * dc)"

text \<open>
  The axis through \<open>(r, c)\<close> along \<open>d\<close> totals at least \<open>k\<close>: the moved cell counts 1,
  plus the run forward and the run backward.
\<close>

definition axis_reaches :: "board \<Rightarrow> string \<Rightarrow> int \<Rightarrow> int \<Rightarrow> int \<times> int \<Rightarrow> int \<Rightarrow> bool" where
  "axis_reaches b p r c d k \<longleftrightarrow>
     (\<exists>f g. run_of b p r c (fst d) (snd d) f \<and> run_of b p r c (- fst d) (- snd d) g \<and>
            k \<le> 1 + int f + int g)"

text \<open>
  A \<open>k\<close>-run of \<open>p\<close>: \<open>k\<close> cells in a row along one of the four directions, starting at
  some cell of the board, all holding \<open>p\<close>.
\<close>

definition k_line :: "board \<Rightarrow> int \<Rightarrow> string \<Rightarrow> int \<Rightarrow> int \<Rightarrow> int \<times> int \<Rightarrow> bool" where
  "k_line b k p r c d \<longleftrightarrow> (\<forall>i \<in> {0..<k}. holds b p (r + i * fst d) (c + i * snd d))"

definition k_run :: "board \<Rightarrow> int \<Rightarrow> string \<Rightarrow> bool" where
  "k_run b k p \<longleftrightarrow>
     (\<exists>r \<in> {0..<rows_count b}. \<exists>c \<in> {0..<cols_count b}. \<exists>d \<in> set directions. k_line b k p r c d)"


text \<open>The board with \<open>v\<close> written at the in-bounds cell \<open>(r, c)\<close>.\<close>

definition place :: "board \<Rightarrow> int \<Rightarrow> int \<Rightarrow> string \<Rightarrow> board" where
  "place b r c v = b[nat r := (b ! nat r)[nat c := v]]"

text \<open>
  Reachable states, as the match loop of \<open>Game_Master_Offline.play_move\<close> produces them:
  play starts from a rectangular board holding no token (empty and forbidden squares
  only) with \<open>X\<close> or \<open>O\<close> to move; a move is applied with \<open>apply_move\<close> to an in-bounds
  cell; and play goes on from a state only while the win tester, given the move just
  played, returns \<open>None\<close>. The second argument is the move that produced the state
  (\<open>None\<close> for the initial state).
\<close>

inductive reachable :: "int \<Rightarrow> 'a state_scheme \<Rightarrow> (int \<times> int) option \<Rightarrow> bool" for k where
  start: "rect (board s) \<Longrightarrow>
          list_all (list_all (\<lambda>cell. cell = '' '' \<or> cell = ''-'')) (board s) \<Longrightarrow>
          whose_move s = ''X'' \<or> whose_move s = ''O'' \<Longrightarrow>
          reachable k s None"
| move: "reachable k s prev \<Longrightarrow>
         prev = None \<or> check_win_condition s prev k = Inr None \<Longrightarrow>
         in_bounds (board s) r c \<Longrightarrow>
         apply_move s (r, c) = Inr s' \<Longrightarrow>
         reachable k s' (Some (r, c))"

text \<open>
  The invariant of reachable states: after a move at \<open>(r, c)\<close>, that cell holds a token and
  every \<open>k\<close>-run on the board is of that token and lies on an axis through \<open>(r, c)\<close>.
\<close>

definition run_inv :: "int \<Rightarrow> 'a state_scheme \<Rightarrow> (int \<times> int) option \<Rightarrow> bool" where
  "run_inv k s lm \<longleftrightarrow>
     rect (board s) \<and> (whose_move s = ''X'' \<or> whose_move s = ''O'') \<and>
     (case lm of
        None \<Rightarrow> \<not> k_run (board s) k ''X'' \<and> \<not> k_run (board s) k ''O''
      | Some (r, c) \<Rightarrow>
          in_bounds (board s) r c \<and>
          (board s ! nat r ! nat c = ''X'' \<or> board s ! nat r ! nat c = ''O'') \<and>
          (\<forall>q. (q = ''X'' \<or> q = ''O'') \<longrightarrow> k_run (board s) k q \<longrightarrow>
               q = board s ! nat r ! nat c \<and>
               (\<exists>d \<in> set directions. axis_reaches (board s) q r c d k)))"

text \<open>
  The length-\<open>k\<close> lines of the board: an origin cell and one of the four directions such
  that all \<open>k\<close> cells of the line are on the board. \<open>cells_holding\<close> counts the cells of a
  line that hold a given string, and \<open>line_value\<close> is what a line contributes to a player:
  1000 if all \<open>k\<close> cells are the player's, 50 if exactly \<open>k - 1\<close> are the player's and the
  remainder empty, 10 if exactly \<open>k - 2\<close> are the player's and the remainder empty, and 0
  otherwise. A player's total is the sum over all lines.
\<close>

definition fits :: "board \<Rightarrow> int \<Rightarrow> int \<Rightarrow> int \<Rightarrow> int \<times> int \<Rightarrow> bool" where
  "fits b k r c d \<longleftrightarrow> (\<forall>i \<in> {0..<k}. in_bounds b (r + i * fst d) (c + i * snd d))"

definition board_lines :: "board \<Rightarrow> int \<Rightarrow> (int \<times> int \<times> int \<times> int) set" where
  "board_lines b k =
     {(r, c, d). r \<in> {0..<rows_count b} \<and> c \<in> {0..<cols_count b} \<and> d \<in> set directions \<and>
                 fits b k r c d}"

definition cells_holding :: "board \<Rightarrow> int \<Rightarrow> string \<Rightarrow> int \<times> int \<times> int \<times> int \<Rightarrow> nat" where
  "cells_holding b k t ln =
     (case ln of (r, c, d) \<Rightarrow>
        card {i \<in> {0..<k}. b ! nat (r + i * fst d) ! nat (c + i * snd d) = t})"

definition line_value :: "board \<Rightarrow> int \<Rightarrow> string \<Rightarrow> int \<times> int \<times> int \<times> int \<Rightarrow> int" where
  "line_value b k p ln =
     (if int (cells_holding b k p ln) = k then 1000
      else if int (cells_holding b k p ln) = k - 1 \<and>
              int (cells_holding b k p ln) + int (cells_holding b k '' '' ln) = k then 50
      else if int (cells_holding b k p ln) = k - 2 \<and>
              int (cells_holding b k p ln) + int (cells_holding b k '' '' ln) = k then 10
      else 0)"

definition player_total :: "board \<Rightarrow> int \<Rightarrow> string \<Rightarrow> int" where
  "player_total b k p = (\<Sum>ln \<in> board_lines b k. line_value b k p ln)"

text \<open>
  The occupied cells of a board with their tokens; the key of a (cell, token) pair as
  \<open>compute_zobrist\<close> looks it up (\<open>dict.get(key, 0)\<close>); and the XOR of the keys of a list
  of such pairs.
\<close>

definition occupied :: "board \<Rightarrow> (int \<times> int \<times> string) set" where
  "occupied b = {(r, c, t). in_bounds b r c \<and> b ! nat r ! nat c = t \<and> (t = ''X'' \<or> t = ''O'')}"

definition key_of :: "(int \<times> int \<times> string \<Rightarrow> 64 word option) \<Rightarrow> int \<times> int \<times> string \<Rightarrow> 64 word" where
  "key_of keys x = (case keys x of None \<Rightarrow> 0 | Some key \<Rightarrow> key)"

definition xor_keys :: "(int \<times> int \<times> string \<Rightarrow> 64 word option) \<Rightarrow> (int \<times> int \<times> string) list \<Rightarrow> 64 word" where
  "xor_keys keys xs = fold (\<lambda>x h. h XOR key_of keys x) xs 0"

text \<open>
  Auxiliary notions of the proofs: the origins of the evaluator's sequences in the order
  of its loops, the cells of a line, the occupied cells in scan order, a state that holds
  a token in the scanned part of its board, and a table of distinct keys for examples.
\<close>

definition origins :: "int \<Rightarrow> int \<Rightarrow> int \<Rightarrow> (int \<times> int \<times> int \<times> int) list" where
  "origins rows cols k =
     concat (map (\<lambda>r. map (\<lambda>c. (r, c, (0, 1))) (py_range 0 (cols - k + 1))) (py_range 0 rows)) @
     concat (map (\<lambda>c. map (\<lambda>r. (r, c, (1, 0))) (py_range 0 (rows - k + 1))) (py_range 0 cols)) @
     concat (map (\<lambda>r. map (\<lambda>c. (r, c, (1, 1))) (py_range 0 (cols - k + 1)))
               (py_range 0 (rows - k + 1))) @
     concat (map (\<lambda>r. map (\<lambda>c. (r, c, (1, - 1))) (py_range (k - 1) cols))
               (py_range 0 (rows - k + 1)))"

definition line_of :: "int \<Rightarrow> int \<times> int \<times> int \<times> int \<Rightarrow> (int \<times> int) list" where
  "line_of k ln = (case ln of (r, c, d) \<Rightarrow> line_cells r c (fst d) (snd d) k)"

definition tokens_at :: "board \<Rightarrow> (nat \<times> nat) list \<Rightarrow> (int \<times> int \<times> string) list" where
  "tokens_at b cells =
     map (\<lambda>x. (int (fst x), int (snd x), b ! fst x ! snd x))
       (filter (\<lambda>x. b ! fst x ! snd x = ''X'' \<or> b ! fst x ! snd x = ''O'') cells)"

definition has_token :: "'a state_scheme \<Rightarrow> bool" where
  "has_token s \<longleftrightarrow>
     (\<exists>x \<in> set (scan_cells (board s)).
        cell_at (board s) (int (fst x)) (int (snd x)) = Inr ''X'' \<or>
        cell_at (board s) (int (fst x)) (int (snd x)) = Inr ''O'')"

definition example_draw :: "int \<times> int \<times> string \<Rightarrow> 64 word" where
  "example_draw x = (case x of (r, c, t) \<Rightarrow> push_bit (nat (2 * (3 * r + c)) + (if t = ''X'' then 0 else 1)) 1)"

text \<open>
  The state that a store holds at a reference, as a value of the model, and the condition
  that the rows of its board are distinct objects (a board built as the game master
  builds it, one list per row).
\<close>

definition state_at :: "store \<Rightarrow> nat \<Rightarrow> state option" where
  "state_at st a =
     (case state_obj st a of
        None \<Rightarrow> None
      | Some (b, w) \<Rightarrow>
          (case board_obj st b of
             None \<Rightarrow> None
           | Some rs \<Rightarrow>
               if list_all (\<lambda>r. row_obj st r \<noteq> None) rs
               then Some \<lparr>board = map (\<lambda>r. the (row_obj st r)) rs, whose_move = w\<rparr>
               else None))"

definition separate_rows :: "store \<Rightarrow> nat \<Rightarrow> bool" where
  "separate_rows st a \<longleftrightarrow>
     (case state_obj st a of
        None \<Rightarrow> False
      | Some (b, w) \<Rightarrow> (case board_obj st b of None \<Rightarrow> False | Some rs \<Rightarrow> distinct rs))"

section \<open>The state transition and its failures\<close>

text \<open>
  C8, as the code has it. \<open>apply_move\<close> has no bounds check of its own: the target cell is
  read with Python indexing. It raises the invalid-move \<open>ValueError\<close> exactly when the
  cell it addresses is not empty, raises \<open>IndexError\<close> exactly when the indices address no
  cell, and succeeds exactly when the addressed cell is empty; an index in \<open>[-len, 0)\<close>
  addresses a cell counted from the end. For a move that is in bounds the addressed cell
  is the target cell.
\<close>

theorem apply_move_failure_modes:
  "(apply_move s (r, c) = Inl (InvalidMove r c) \<longleftrightarrow>
      addressable (board s) r c \<and> addressed_cell (board s) r c \<noteq> '' '') \<and>
   (apply_move s (r, c) = Inl IndexError \<longleftrightarrow> \<not> addressable (board s) r c) \<and>
   ((\<exists>s'. apply_move s (r, c) = Inr s') \<longleftrightarrow>
      addressable (board s) r c \<and> addressed_cell (board s) r c = '' '') \<and>
   (in_bounds (board s) r c \<longrightarrow>
      addressable (board s) r c \<and> addressed_cell (board s) r c = board s ! nat r ! nat c)"
  by (simp add: apply_move_cases in_bounds_addressable in_bounds_addressed)

theorem apply_move_failure_modes_witness:
  "in_bounds [[''X'', '' '']] 0 0 \<and>
   apply_move \<lparr>board = [[''X'', '' '']], whose_move = ''O''\<rparr> (0, 0) = Inl (InvalidMove 0 0) \<and>
   addressed_cell [[''X'', '' '']] 0 0 = ''X''"
  using apply_move_failure_modes [of "\<lparr>board = [[''X'', '' '']], whose_move = ''O''\<rparr>" 0 0]
  by (simp add: in_bounds_def)

text \<open>
  The claim as the specification words it fails: column \<open>-1\<close> of a one-row board is out of
  bounds, yet the move is applied (to the last cell of the row); and a column beyond the
  row raises \<open>IndexError\<close>, not the invalid-move error.
\<close>

theorem apply_move_out_of_bounds_counterexample:
  "\<not> in_bounds [[''X'', '' '']] 0 (- 1) \<and>
   apply_move \<lparr>board = [[''X'', '' '']], whose_move = ''O''\<rparr> (0, - 1) =
     Inr \<lparr>board = [[''X'', ''O'']], whose_move = ''X''\<rparr> \<and>
   \<not> in_bounds [[''X'', '' '']] 0 2 \<and>
   apply_move \<lparr>board = [[''X'', '' '']], whose_move = ''O''\<rparr> (0, 2) = Inl IndexError"
  by (simp add: in_bounds_def apply_move_cases addressable_def addressed_cell_def py_pos_def)

text \<open>
  The result of a valid move as a value: the shape of the input, the mover's token at
  the target cell, the input's content at every other cell, the side to move flipped
  between \<open>X\<close> and \<open>O\<close>, every other attribute carried over.
\<close>

lemma apply_move_frame_value:
  assumes "in_bounds (board s) r c" and "board s ! nat r ! nat c = '' ''"
  shows "\<exists>s'. apply_move s (r, c) = Inr s' \<and>
           length (board s') = length (board s) \<and>
           (\<forall>i < length (board s). length (board s' ! i) = length (board s ! i)) \<and>
           board s' ! nat r ! nat c = whose_move s \<and>
           (\<forall>i j. i < length (board s) \<longrightarrow> j < length (board s ! i) \<longrightarrow>
                  (i, j) \<noteq> (nat r, nat c) \<longrightarrow> board s' ! i ! j = board s ! i ! j) \<and>
           (whose_move s = ''X'' \<longrightarrow> whose_move s' = ''O'') \<and>
           (whose_move s = ''O'' \<longrightarrow> whose_move s' = ''X'') \<and>
           state.more s' = state.more s"
proof -
  from assms(1) have r: "0 \<le> r" "nat r < length (board s)"
    and c: "0 \<le> c" "nat c < length (board s ! nat r)"
    by (auto simp: in_bounds_def)
  let ?b' = "(board s)[nat r := (board s ! nat r)[nat c := whose_move s]]"
  let ?s' = "s\<lparr>board := ?b', whose_move := (if whose_move s = ''X'' then ''O'' else ''X'')\<rparr>"
  have ok: "apply_move s (r, c) = Inr ?s'"
    using assms r c
    by (simp add: apply_move_cases in_bounds_addressable in_bounds_addressed)
  have shape: "\<forall>i < length (board s). length (?b' ! i) = length (board s ! i)"
    using r by (auto simp: nth_list_update)
  have target: "?b' ! nat r ! nat c = whose_move s"
    using r c by simp
  have others: "\<forall>i j. i < length (board s) \<longrightarrow> j < length (board s ! i) \<longrightarrow>
                  (i, j) \<noteq> (nat r, nat c) \<longrightarrow> ?b' ! i ! j = board s ! i ! j"
    using r by (auto simp: nth_list_update)
  show ?thesis
    using ok shape target others by simp
qed

lemma apply_move_in_bounds:
  assumes "in_bounds (board s) r c" and "apply_move s (r, c) = Inr s'"
  shows "board s ! nat r ! nat c = '' ''"
    and "board s' = place (board s) r c (whose_move s)"
    and "whose_move s' = (if whose_move s = ''X'' then ''O'' else ''X'')"
  using assms
  by (auto simp: apply_move_cases in_bounds_addressable in_bounds_addressed place_def
        in_bounds_def split: if_splits)

lemma length_place [simp]: "length (place b r c v) = length b"
  by (simp add: place_def)

lemma length_place_row [simp]: "length (place b r c v ! i) = length (b ! i)"
proof (cases "i = nat r")
  case True
  then show ?thesis
    by (cases "nat r < length b") (simp_all add: place_def list_update_beyond)
next
  case False
  then show ?thesis by (simp add: place_def)
qed

text \<open>
  The copy of distinct rows appends one new row object per row, in order, and changes no
  object of the store.
\<close>

lemma copy_rows_fresh:
  assumes "distinct rs" and "set rs \<inter> fst ` set memo = {}"
    and "\<forall>r \<in> set rs. row_obj st r \<noteq> None"
  shows "\<exists>memo' rs'. copy_rows st memo rs = Some (st @ map (\<lambda>r. st ! r) rs, memo', rs') \<and>
           length rs' = length rs \<and> (\<forall>i < length rs. rs' ! i = length st + i)"
  using assms
proof (induction rs arbitrary: st memo)
  case Nil
  then show ?case by simp
next
  case (Cons r rs)
  from Cons.prems(2) have nomemo: "map_of memo r = None"
    by (auto simp: map_of_eq_None_iff)
  from Cons.prems(3) obtain row where r: "r < length st" "st ! r = RowObj row"
    by (auto simp: row_obj_def split: if_splits obj.splits)
  let ?st = "st @ [RowObj row]"
  have "distinct rs" using Cons.prems(1) by simp
  moreover have "set rs \<inter> fst ` set ((r, length st) # memo) = {}"
    using Cons.prems(1,2) by auto
  moreover have "\<forall>x \<in> set rs. row_obj ?st x \<noteq> None"
    using Cons.prems(3) by (auto simp: row_obj_def nth_append split: if_splits obj.splits)
  ultimately obtain memo' rs' where IH:
    "copy_rows ?st ((r, length st) # memo) rs = Some (?st @ map (\<lambda>x. ?st ! x) rs, memo', rs')"
    "length rs' = length rs" "\<forall>i < length rs. rs' ! i = length ?st + i"
    using Cons.IH by blast
  have same: "map (\<lambda>x. ?st ! x) rs = map (\<lambda>x. st ! x) rs"
    using Cons.prems(3) by (auto simp: row_obj_def nth_append split: if_splits)
  have "\<forall>i < length (r # rs). (length st # rs') ! i = length st + i"
    using IH(3) by (auto simp: nth_Cons split: nat.splits)
  with IH(1,2) same nomemo r show ?case by simp
qed

lemma state_at_agree:
  assumes "state_at st a = Some s" and "length st \<le> length st'"
    and "\<forall>x < length st. st' ! x = st ! x"
  shows "state_at st' a = Some s"
proof -
  have so: "state_obj st x = Some y \<Longrightarrow> state_obj st' x = Some y" for x y
    using assms(2,3) by (auto simp: state_obj_def split: if_splits)
  have bo: "board_obj st x = Some y \<Longrightarrow> board_obj st' x = Some y" for x y
    using assms(2,3) by (auto simp: board_obj_def split: if_splits)
  have ro: "row_obj st x = Some y \<Longrightarrow> row_obj st' x = Some y" for x y
    using assms(2,3) by (auto simp: row_obj_def split: if_splits)
  from assms(1) obtain b w rs where a: "state_obj st a = Some (b, w)" "board_obj st b = Some rs"
    "list_all (\<lambda>r. row_obj st r \<noteq> None) rs"
    "s = \<lparr>board = map (\<lambda>r. the (row_obj st r)) rs, whose_move = w\<rparr>"
    by (auto simp: state_at_def split: option.splits if_splits)
  from a(3) have "list_all (\<lambda>r. row_obj st' r \<noteq> None) rs"
    "map (\<lambda>r. the (row_obj st' r)) rs = map (\<lambda>r. the (row_obj st r)) rs"
    using ro by (auto simp: list_all_iff)
  with so [OF a(1)] bo [OF a(2)] a(4) show ?thesis
    by (simp add: state_at_def)
qed

lemma apply_move_store_refines:
  assumes s: "state_at st a = Some s" and sep: "separate_rows st a"
    and inb: "in_bounds (board s) r c" and empty: "board s ! nat r ! nat c = '' ''"
  shows "\<exists>a' st'. apply_move_store st a (r, c) = Some (Inr (a', st')) \<and>
           length st \<le> length st' \<and> (\<forall>x < length st. st' ! x = st ! x) \<and> length st \<le> a' \<and>
           state_at st' a' =
             Some (s\<lparr>board := place (board s) r c (whose_move s),
                      whose_move := (if whose_move s = ''X'' then ''O'' else ''X'')\<rparr>)"
proof -
  from s obtain b w rs where so: "state_obj st a = Some (b, w)" and bo: "board_obj st b = Some rs"
    and rows: "list_all (\<lambda>x. row_obj st x \<noteq> None) rs"
    and sv: "s = \<lparr>board = map (\<lambda>x. the (row_obj st x)) rs, whose_move = w\<rparr>"
    by (auto simp: state_at_def split: option.splits if_splits)
  from sep so bo have dist: "distinct rs" by (simp add: separate_rows_def)
  from rows have rows': "\<forall>x \<in> set rs. row_obj st x \<noteq> None" by (simp add: list_all_iff)
  define n where "n = length st"
  define m where "m = length rs"
  define st1 where "st1 = st @ map (\<lambda>x. st ! x) rs"
  from copy_rows_fresh [OF dist _ rows', of "[]"] obtain memo rs' where
    cp: "copy_rows st [] rs = Some (st1, memo, rs')" and len: "length rs' = m"
    and refs: "\<forall>i < m. rs' ! i = n + i" by (auto simp: st1_def n_def m_def)
  define b1 where "b1 = n + m"
  define a1 where "a1 = Suc b1"
  define st2 where "st2 = st1 @ [BoardObj rs', StateObj b1 w]"
  have l1: "length st1 = b1" by (simp add: st1_def b1_def n_def m_def)
  have l2: "length st2 = Suc a1" by (simp add: st2_def l1 a1_def)
  have dc: "deepcopy_state st a = Some (a1, st2)"
    by (simp add: deepcopy_state_def so bo cp l1 st2_def a1_def)
  have so2: "state_obj st2 a1 = Some (b1, w)"
    by (simp add: state_obj_def st2_def nth_append l1 a1_def)
  have bo2: "board_obj st2 b1 = Some rs'"
    by (simp add: board_obj_def st2_def nth_append l1)
  from inb have r: "0 \<le> r" "nat r < m" and c: "0 \<le> c" "nat c < length (board s ! nat r)"
    by (auto simp: in_bounds_def sv m_def)
  define rr where "rr = n + nat r"
  define row where "row = board s ! nat r"
  have rowval: "st ! (rs ! i) = RowObj (board s ! i)" if "i < m" for i
    using rows' that by (auto simp: sv m_def row_obj_def split: if_splits obj.splits)
  have old: "st2 ! x = st ! x" if "x < n" for x
    using that by (simp add: st2_def st1_def nth_append n_def)
  have new: "st2 ! (n + i) = RowObj (board s ! i)" if "i < m" for i
    using that rowval [OF that] by (simp add: st2_def st1_def nth_append n_def m_def)
  have ix: "py_index rs' r = Inr rr"
    using r len refs by (simp add: py_index_eq rr_def)
  have rr_lt: "rr < b1" using r by (simp add: rr_def b1_def)
  have ro2: "row_obj st2 rr = Some row"
    using new [OF r(2)] rr_lt l2 by (simp add: row_obj_def rr_def row_def a1_def)
  have lk: "lookup_row st2 a1 r = Some (Inr (rr, row))"
    by (simp add: lookup_row_def so2 bo2 ix ro2)
  have cell: "py_index row c = Inr '' ''"
    using c empty by (simp add: py_index_eq row_def)
  from so have a_lt: "a < n" by (auto simp: state_obj_def n_def split: if_splits)
  have so2a: "state_obj st2 a = Some (b, w)"
    using so a_lt old [OF a_lt] l2 by (auto simp: state_obj_def a1_def b1_def split: if_splits)
  define flip where "flip = (if w = ''X'' then ''O'' else ''X'')"
  define st3 where "st3 = (st2[rr := RowObj (row[nat c := w])])[a1 := StateObj b1 flip]"
  have res: "apply_move_store st a (r, c) = Some (Inr (a1, st3))"
    using c by (simp add: apply_move_store_def dc lk cell so2a so2 st3_def flip_def)
  have l3: "length st3 = Suc a1" by (simp add: st3_def l2)
  have n_le: "n \<le> rr" "n \<le> a1" "rr < a1" "rr \<noteq> b1" "b1 \<noteq> a1"
    using rr_lt by (simp_all add: rr_def a1_def b1_def)
  have keep: "st3 ! x = st ! x" if "x < n" for x
    using that n_le old [OF that] by (simp add: st3_def)
  have so3: "state_obj st3 a1 = Some (b1, flip)"
    by (simp add: state_obj_def st3_def l2)
  have bo3: "board_obj st3 b1 = Some rs'"
    using bo2 n_le by (simp add: board_obj_def st3_def split: if_splits)
  have lb: "length (board s) = m" by (simp add: sv m_def)
  have row3: "row_obj st3 (rs' ! i) = Some (place (board s) r c w ! i)" if "i < m" for i
  proof -
    from that refs have ri: "rs' ! i = n + i" by simp
    have lt: "n + i < length st3" using that by (simp add: l3 a1_def b1_def)
    have ne: "n + i \<noteq> a1" using that by (simp add: a1_def b1_def)
    show ?thesis
    proof (cases "i = nat r")
      case True
      then have "st3 ! (n + i) = RowObj (row[nat c := w])"
        using l2 rr_lt ne by (simp add: st3_def rr_def a1_def)
      moreover have "place (board s) r c w ! i = row[nat c := w]"
        using True that lb by (simp add: place_def row_def)
      ultimately show ?thesis
        using lt by (simp add: ri row_obj_def)
    next
      case False
      then have "st3 ! (n + i) = st2 ! (n + i)"
        using ne by (simp add: st3_def rr_def)
      moreover have "place (board s) r c w ! i = board s ! i"
        using False by (simp add: place_def)
      ultimately show ?thesis
        using new [OF that] lt by (simp add: ri row_obj_def)
    qed
  qed
  have all3: "list_all (\<lambda>x. row_obj st3 x \<noteq> None) rs'"
    unfolding list_all_length using row3 len by simp
  have map3: "map (\<lambda>x. the (row_obj st3 x)) rs' = place (board s) r c w"
    using row3 len lb by (auto simp: list_eq_iff_nth_eq)
  have "state_at st3 a1 = Some \<lparr>board = place (board s) r c w, whose_move = flip\<rparr>"
    using all3 map3 by (simp add: state_at_def so3 bo3)
  then have st3: "state_at st3 a1 =
      Some (s\<lparr>board := place (board s) r c (whose_move s),
               whose_move := (if whose_move s = ''X'' then ''O'' else ''X'')\<rparr>)"
    by (simp add: sv flip_def)
  have "length st \<le> length st3" "length st \<le> a1" "\<forall>x < length st. st3 ! x = st ! x"
    using n_le keep by (simp_all add: l3 n_def)
  with res st3 show ?thesis by blast
qed

text \<open>
  Whatever the rows of the board, a successful \<open>apply_move\<close> returns a reference that was
  not in the store and leaves every object of the store as it was: the copy only appends,
  and both assignments go to objects of the copy.
\<close>

lemma py_index_mem: "py_index xs i = Inr x \<Longrightarrow> x \<in> set xs"
  by (auto simp: py_index_eq py_pos_def split: if_splits)

lemma copy_rows_extends:
  assumes "copy_rows st memo rs = Some (st', memo', rs')"
    and "\<forall>v \<in> snd ` set memo. n \<le> v" and "n \<le> length st"
  shows "length st \<le> length st' \<and> (\<forall>x < length st. st' ! x = st ! x) \<and> (\<forall>v \<in> set rs'. n \<le> v)"
  using assms
proof (induction rs arbitrary: st memo st' memo' rs')
  case Nil
  then show ?case by simp
next
  case (Cons r rs)
  show ?case
  proof (cases "map_of memo r")
    case (Some r')
    with Cons.prems(1) obtain rs1 where
      rec: "copy_rows st memo rs = Some (st', memo', rs1)" and rs': "rs' = r' # rs1"
      by (auto split: option.splits prod.splits)
    from Some have "(r, r') \<in> set memo" by (rule map_of_SomeD)
    then have "r' \<in> snd ` set memo" by force
    with Cons.prems(2) have "n \<le> r'" by blast
    with Cons.IH [OF rec Cons.prems(2,3)] rs' show ?thesis by simp
  next
    case None
    with Cons.prems(1) obtain row rs1 where
      r: "r < length st" "st ! r = RowObj row"
      and rec: "copy_rows (st @ [RowObj row]) ((r, length st) # memo) rs = Some (st', memo', rs1)"
      and rs': "rs' = length st # rs1"
      by (auto split: option.splits prod.splits if_splits obj.splits)
    have m: "\<forall>v \<in> snd ` set ((r, length st) # memo). n \<le> v"
      using Cons.prems(2,3) by auto
    have l: "n \<le> length (st @ [RowObj row])"
      using Cons.prems(3) by simp
    from Cons.IH [OF rec m l] have
      a: "length (st @ [RowObj row]) \<le> length st'"
      and b: "\<forall>x < length (st @ [RowObj row]). st' ! x = (st @ [RowObj row]) ! x"
      and c: "\<forall>v \<in> set rs1. n \<le> v"
      by blast+
    from a have "length st \<le> length st'" by simp
    moreover have "\<forall>x < length st. st' ! x = st ! x"
    proof (intro allI impI)
      fix x assume x: "x < length st"
      then have "st' ! x = (st @ [RowObj row]) ! x" using b by simp
      with x show "st' ! x = st ! x" by (simp add: nth_append)
    qed
    moreover have "\<forall>v \<in> set rs'. n \<le> v"
      using c rs' Cons.prems(3) by simp
    ultimately show ?thesis by blast
  qed
qed

lemma apply_move_store_keeps:
  assumes "apply_move_store st a mv = Some (Inr (a', st'))"
  shows "length st \<le> length st'" and "\<forall>x < length st. st' ! x = st ! x" and "length st \<le> a'"
proof -
  obtain r c where mv: "mv = (r, c)" by (cases mv)
  from assms mv obtain new_state st1 where
    dc: "deepcopy_state st a = Some (new_state, st1)"
    by (auto simp: apply_move_store_def split: option.splits)
  then obtain w rs st0 memo rs' where
    cr: "copy_rows st [] rs = Some (st0, memo, rs')"
    and ns: "new_state = Suc (length st0)"
    and st1: "st1 = st0 @ [BoardObj rs', StateObj (length st0) w]"
    by (auto simp: deepcopy_state_def split: option.splits prod.splits)
  from copy_rows_extends [OF cr, of "length st"] have
    grow: "length st \<le> length st0" and keep: "\<forall>x < length st. st0 ! x = st ! x"
    and refs: "\<forall>v \<in> set rs'. length st \<le> v"
    by simp_all
  have so: "state_obj st1 new_state = Some (length st0, w)"
    by (simp add: state_obj_def st1 ns nth_append)
  have bo: "board_obj st1 (length st0) = Some rs'"
    by (simp add: board_obj_def st1 nth_append)
  from assms mv dc obtain rr row where
    lk: "lookup_row st1 new_state r = Some (Inr (rr, row))"
    by (auto simp: apply_move_store_def split: option.splits sum.splits prod.splits)
  then have "py_index rs' r = Inr rr"
    by (auto simp: lookup_row_def so bo split: sum.splits option.splits)
  then have "rr \<in> set rs'" by (rule py_index_mem)
  with refs have rr: "length st \<le> rr" by blast
  from assms mv dc lk obtain u v where
    res: "a' = new_state" "st' = (st1[rr := u])[new_state := v]"
    by (auto simp: apply_move_store_def split: option.splits sum.splits prod.splits if_splits)
  show "length st \<le> length st'"
    using grow by (simp add: res st1)
  show "length st \<le> a'"
    using grow by (simp add: res ns)
  show "\<forall>x < length st. st' ! x = st ! x"
  proof (intro allI impI)
    fix x assume x: "x < length st"
    with rr grow have "x \<noteq> rr" "x \<noteq> new_state" "x < length st0"
      by (simp_all add: ns)
    then have "st' ! x = st0 ! x"
      by (simp add: res st1 nth_append)
    with keep x show "st' ! x = st ! x" by simp
  qed
qed

text \<open>
  C9. Whenever \<open>apply_move\<close> succeeds, the reference it returns is new and every object
  that was in the store is unchanged, so the store still holds the input state at the
  input reference. For a state held in a store, with the rows of its board distinct
  objects, and a valid move (in bounds, target cell empty), \<open>apply_move\<close> succeeds, and at
  the returned reference the store holds the state that the value-level \<open>apply_move\<close>
  computes: of the shape of the input, with the mover's token at the target cell, the
  input's content at every other cell, and the side to move flipped between \<open>X\<close> and
  \<open>O\<close>.
\<close>

theorem apply_move_frame:
  "(\<forall>a' st'. apply_move_store st a (r, c) = Some (Inr (a', st')) \<longrightarrow>
      length st \<le> a' \<and> (\<forall>x < length st. st' ! x = st ! x) \<and>
      (\<forall>s. state_at st a = Some s \<longrightarrow> state_at st' a = Some s)) \<and>
   (\<forall>s. state_at st a = Some s \<and> separate_rows st a \<and>
        in_bounds (board s) r c \<and> board s ! nat r ! nat c = '' '' \<longrightarrow>
      (\<exists>a' st' s'.
         apply_move_store st a (r, c) = Some (Inr (a', st')) \<and>
         state_at st' a' = Some s' \<and> apply_move s (r, c) = Inr s' \<and>
         length (board s') = length (board s) \<and>
         (\<forall>i < length (board s). length (board s' ! i) = length (board s ! i)) \<and>
         board s' ! nat r ! nat c = whose_move s \<and>
         (\<forall>i j. i < length (board s) \<longrightarrow> j < length (board s ! i) \<longrightarrow>
                (i, j) \<noteq> (nat r, nat c) \<longrightarrow> board s' ! i ! j = board s ! i ! j) \<and>
         (whose_move s = ''X'' \<longrightarrow> whose_move s' = ''O'') \<and>
         (whose_move s = ''O'' \<longrightarrow> whose_move s' = ''X'')))"
proof (intro conjI allI impI)
  fix a' st'
  assume run: "apply_move_store st a (r, c) = Some (Inr (a', st'))"
  from apply_move_store_keeps(3) [OF run] show "length st \<le> a'" .
next
  fix a' st' x
  assume run: "apply_move_store st a (r, c) = Some (Inr (a', st'))" and "x < length st"
  with apply_move_store_keeps(2) [OF run] show "st' ! x = st ! x" by simp
next
  fix a' st' s
  assume run: "apply_move_store st a (r, c) = Some (Inr (a', st'))"
    and "state_at st a = Some s"
  from state_at_agree [OF this(2) apply_move_store_keeps(1,2) [OF run]]
  show "state_at st' a = Some s" .
next
  fix s
  assume h: "state_at st a = Some s \<and> separate_rows st a \<and>
             in_bounds (board s) r c \<and> board s ! nat r ! nat c = '' ''"
  then have at: "state_at st a = Some s" and sep: "separate_rows st a"
    and inb: "in_bounds (board s) r c" and emp: "board s ! nat r ! nat c = '' ''"
    by simp_all
  from apply_move_store_refines [OF at sep inb emp] obtain a' st' where
    run: "apply_move_store st a (r, c) = Some (Inr (a', st'))"
    and new: "state_at st' a' =
                Some (s\<lparr>board := place (board s) r c (whose_move s),
                         whose_move := (if whose_move s = ''X'' then ''O'' else ''X'')\<rparr>)"
    by blast
  from apply_move_frame_value [OF inb emp] obtain s' where
    pure: "apply_move s (r, c) = Inr s'"
    and frame: "length (board s') = length (board s)"
      "\<forall>i < length (board s). length (board s' ! i) = length (board s ! i)"
      "board s' ! nat r ! nat c = whose_move s"
      "\<forall>i j. i < length (board s) \<longrightarrow> j < length (board s ! i) \<longrightarrow>
             (i, j) \<noteq> (nat r, nat c) \<longrightarrow> board s' ! i ! j = board s ! i ! j"
      "whose_move s = ''X'' \<longrightarrow> whose_move s' = ''O''"
      "whose_move s = ''O'' \<longrightarrow> whose_move s' = ''X''"
    by blast
  from apply_move_in_bounds(2,3) [OF inb pure]
  have "s' = s\<lparr>board := place (board s) r c (whose_move s),
                 whose_move := (if whose_move s = ''X'' then ''O'' else ''X'')\<rparr>"
    by (cases s, cases s') simp
  with new have new': "state_at st' a' = Some s'" by simp
  from run new' pure frame
  show "\<exists>a' st' s'.
         apply_move_store st a (r, c) = Some (Inr (a', st')) \<and>
         state_at st' a' = Some s' \<and> apply_move s (r, c) = Inr s' \<and>
         length (board s') = length (board s) \<and>
         (\<forall>i < length (board s). length (board s' ! i) = length (board s ! i)) \<and>
         board s' ! nat r ! nat c = whose_move s \<and>
         (\<forall>i j. i < length (board s) \<longrightarrow> j < length (board s ! i) \<longrightarrow>
                (i, j) \<noteq> (nat r, nat c) \<longrightarrow> board s' ! i ! j = board s ! i ! j) \<and>
         (whose_move s = ''X'' \<longrightarrow> whose_move s' = ''O'') \<and>
         (whose_move s = ''O'' \<longrightarrow> whose_move s' = ''X'')"
    by blast
qed

theorem apply_move_frame_witness:
  "state_at [RowObj [''X'', '' ''], RowObj [''O'', ''-''], BoardObj [0, 1], StateObj 2 ''X''] 3 =
     Some \<lparr>board = [[''X'', '' ''], [''O'', ''-'']], whose_move = ''X''\<rparr> \<and>
   separate_rows [RowObj [''X'', '' ''], RowObj [''O'', ''-''], BoardObj [0, 1], StateObj 2 ''X''] 3 \<and>
   in_bounds [[''X'', '' ''], [''O'', ''-'']] 0 1 \<and>
   apply_move_store
     [RowObj [''X'', '' ''], RowObj [''O'', ''-''], BoardObj [0, 1], StateObj 2 ''X''] 3 (0, 1) =
     Some (Inr (7, [RowObj [''X'', '' ''], RowObj [''O'', ''-''], BoardObj [0, 1], StateObj 2 ''X'',
                    RowObj [''X'', ''X''], RowObj [''O'', ''-''], BoardObj [4, 5], StateObj 6 ''O''])) \<and>
   state_at [RowObj [''X'', '' ''], RowObj [''O'', ''-''], BoardObj [0, 1], StateObj 2 ''X'',
             RowObj [''X'', ''X''], RowObj [''O'', ''-''], BoardObj [4, 5], StateObj 6 ''O''] 3 =
     Some \<lparr>board = [[''X'', '' ''], [''O'', ''-'']], whose_move = ''X''\<rparr> \<and>
   (\<exists>s'. state_at [RowObj [''X'', '' ''], RowObj [''O'', ''-''], BoardObj [0, 1], StateObj 2 ''X'',
             RowObj [''X'', ''X''], RowObj [''O'', ''-''], BoardObj [4, 5], StateObj 6 ''O''] 7 = Some s' \<and>
         apply_move \<lparr>board = [[''X'', '' ''], [''O'', ''-'']], whose_move = ''X''\<rparr> (0, 1) = Inr s' \<and>
         board s' ! 0 ! 1 = ''X'' \<and> whose_move s' = ''O'')"
proof -
  let ?st = "[RowObj [''X'', '' ''], RowObj [''O'', ''-''], BoardObj [0, 1], StateObj 2 ''X'']"
  let ?st' = "[RowObj [''X'', '' ''], RowObj [''O'', ''-''], BoardObj [0, 1], StateObj 2 ''X'',
               RowObj [''X'', ''X''], RowObj [''O'', ''-''], BoardObj [4, 5], StateObj 6 ''O'']"
  let ?s = "\<lparr>board = [[''X'', '' ''], [''O'', ''-'']], whose_move = ''X''\<rparr>"
  have s: "state_at ?st 3 = Some ?s" by code_simp
  have sep: "separate_rows ?st 3" by code_simp
  have b: "in_bounds (board ?s) 0 1" by (simp add: in_bounds_def)
  have e: "board ?s ! nat 0 ! nat 1 = '' ''" by simp
  have run: "apply_move_store ?st 3 (0, 1) = Some (Inr (7, ?st'))" by code_simp
  note frame = apply_move_frame [of ?st 3 0 1]
  from frame run s have same: "state_at ?st' 3 = Some ?s" by blast
  from frame s sep b e have "\<exists>a' st' s'.
      apply_move_store ?st 3 (0, 1) = Some (Inr (a', st')) \<and> state_at st' a' = Some s' \<and>
      apply_move ?s (0, 1) = Inr s' \<and> board s' ! nat 0 ! nat 1 = whose_move ?s \<and>
      (whose_move ?s = ''X'' \<longrightarrow> whose_move s' = ''O'')"
    by blast
  with run obtain s' where
    "state_at ?st' 7 = Some s'" "apply_move ?s (0, 1) = Inr s'"
    "board s' ! nat 0 ! nat 1 = whose_move ?s" "whose_move ?s = ''X'' \<longrightarrow> whose_move s' = ''O''"
    by auto
  with s sep b run same show ?thesis by auto
qed

section \<open>The win detector: counting runs and scanning the board\<close>

lemma rect_row_length: "rect b \<Longrightarrow> r < length b \<Longrightarrow> int (length (b ! r)) = cols_count b"
  by (simp add: rect_def list_all_length)

lemma rect_in_bounds:
  "rect b \<Longrightarrow> in_bounds b r c \<longleftrightarrow> 0 \<le> r \<and> r < rows_count b \<and> 0 \<le> c \<and> c < cols_count b"
  using rect_row_length [of b "nat r"] by (auto simp: in_bounds_def rows_count_def)

lemma count_loop_run:
  assumes "rect b" and "dr \<noteq> 0 \<or> dc \<noteq> 0"
  shows "\<exists>n. count_loop b cr cc dr dc p (rows_count b) (cols_count b) cnt = Inr (cnt + n) \<and>
             (\<forall>j < n. holds b p (cr + int j * dr) (cc + int j * dc)) \<and>
             \<not> holds b p (cr + int n * dr) (cc + int n * dc)"
  using assms
proof (induction b cr cc dr dc p "rows_count b" "cols_count b" cnt rule: count_loop.induct)
  case (1 b cr cc dr dc player cnt)
  show ?case
  proof (cases "holds b player cr cc")
    case False
    then have "count_loop b cr cc dr dc player (rows_count b) (cols_count b) cnt = Inr (cnt + 0)"
      using "1.prems"(1)
      by (subst count_loop.simps) (auto simp: holds_def rect_in_bounds cell_at_in_bounds)
    with False show ?thesis
      by (intro exI [of _ 0]) simp
  next
    case True
    then have inb: "in_bounds b cr cc" and cell: "b ! nat cr ! nat cc = player"
      by (simp_all add: holds_def)
    from inb have g: "0 \<le> cr \<and> cr < rows_count b \<and> 0 \<le> cc \<and> cc < cols_count b"
      using "1.prems"(1) by (simp add: rect_in_bounds)
    have step: "count_loop b cr cc dr dc player (rows_count b) (cols_count b) cnt =
                count_loop b (cr + dr) (cc + dc) dr dc player (rows_count b) (cols_count b) (cnt + 1)"
      using g cell "1.prems"(2) inb
      by (subst count_loop.simps) (auto simp: cell_at_in_bounds)
    from "1.hyps" [OF g _ _ _ "1.prems"] cell "1.prems"(2) inb
    obtain n where n: "count_loop b (cr + dr) (cc + dc) dr dc player (rows_count b) (cols_count b) (cnt + 1) = Inr (cnt + 1 + n)"
      "\<forall>j < n. holds b player (cr + dr + int j * dr) (cc + dc + int j * dc)"
      "\<not> holds b player (cr + dr + int n * dr) (cc + dc + int n * dc)"
      by (auto simp: cell_at_in_bounds)
    have all: "\<forall>j < Suc n. holds b player (cr + int j * dr) (cc + int j * dc)"
    proof (intro allI impI)
      fix j assume "j < Suc n"
      show "holds b player (cr + int j * dr) (cc + int j * dc)"
      proof (cases j)
        case 0
        with True show ?thesis by simp
      next
        case (Suc j')
        with \<open>j < Suc n\<close> n(2) have "holds b player (cr + dr + int j' * dr) (cc + dc + int j' * dc)"
          by simp
        then show ?thesis using Suc by (simp add: algebra_simps)
      qed
    qed
    have last: "\<not> holds b player (cr + int (Suc n) * dr) (cc + int (Suc n) * dc)"
      using n(3) by (simp add: algebra_simps)
    show ?thesis
      using step n(1) all last by (intro exI [of _ "Suc n"]) simp
  qed
qed

lemma count_in_direction_run:
  assumes "rect b" and "dr \<noteq> 0 \<or> dc \<noteq> 0"
  shows "\<exists>n. count_in_direction b r c dr dc p (rows_count b) (cols_count b) = Inr n \<and>
             run_of b p r c dr dc n"
proof -
  from count_loop_run [OF assms, of "r + dr" "c + dc" p 0]
  obtain n where n: "count_loop b (r + dr) (c + dc) dr dc p (rows_count b) (cols_count b) 0 = Inr n"
    "\<forall>j < n. holds b p (r + dr + int j * dr) (c + dc + int j * dc)"
    "\<not> holds b p (r + dr + int n * dr) (c + dc + int n * dc)"
    by auto
  have "\<forall>i \<in> {1..int n}. holds b p (r + i * dr) (c + i * dc)"
  proof
    fix i assume i: "i \<in> {1..int n}"
    then have "nat (i - 1) < n" by auto
    with n(2) have "holds b p (r + dr + int (nat (i - 1)) * dr) (c + dc + int (nat (i - 1)) * dc)"
      by blast
    moreover have "int (nat (i - 1)) = i - 1" using i by simp
    ultimately show "holds b p (r + i * dr) (c + i * dc)"
      by (simp add: algebra_simps)
  qed
  moreover have "\<not> holds b p (r + (int n + 1) * dr) (c + (int n + 1) * dc)"
    using n(3) by (simp add: algebra_simps)
  ultimately show ?thesis
    using n(1) by (auto simp: count_in_direction_def run_of_def)
qed

lemma run_of_unique: "run_of b p r c dr dc n \<Longrightarrow> run_of b p r c dr dc m \<Longrightarrow> n = m"
proof (rule ccontr)
  assume a: "run_of b p r c dr dc n" "run_of b p r c dr dc m" "n \<noteq> m"
  then consider "n < m" | "m < n" by linarith
  then show False
  proof cases
    case 1
    then have "int n + 1 \<in> {1..int m}" by simp
    with a(2) have "holds b p (r + (int n + 1) * dr) (c + (int n + 1) * dc)"
      unfolding run_of_def by blast
    with a(1) show False by (simp add: run_of_def)
  next
    case 2
    then have "int m + 1 \<in> {1..int n}" by simp
    with a(1) have "holds b p (r + (int m + 1) * dr) (c + (int m + 1) * dc)"
      unfolding run_of_def by blast
    with a(2) show False by (simp add: run_of_def)
  qed
qed

lemma check_axes_iff:
  assumes "rect b" and "\<forall>d \<in> set ds. fst d \<noteq> 0 \<or> snd d \<noteq> 0"
  shows "check_axes b r c p (rows_count b) (cols_count b) k ds =
           Inr (\<exists>d \<in> set ds. axis_reaches b p r c d k)"
  using assms(2)
proof (induction ds)
  case Nil
  then show ?case by simp
next
  case (Cons d ds)
  obtain dr dc where d: "d = (dr, dc)" by (cases d)
  with Cons.prems have nz: "dr \<noteq> 0 \<or> dc \<noteq> 0" by simp
  then have nz': "- dr \<noteq> 0 \<or> - dc \<noteq> 0" by simp
  from count_in_direction_run [OF assms(1) nz, of r c p]
  obtain f where f: "count_in_direction b r c dr dc p (rows_count b) (cols_count b) = Inr f"
    "run_of b p r c dr dc f" by blast
  from count_in_direction_run [OF assms(1) nz', of r c p]
  obtain g where g: "count_in_direction b r c (- dr) (- dc) p (rows_count b) (cols_count b) = Inr g"
    "run_of b p r c (- dr) (- dc) g" by blast
  have here: "axis_reaches b p r c d k \<longleftrightarrow> k \<le> 1 + int f + int g"
  proof
    assume "axis_reaches b p r c d k"
    then obtain f' g' where "run_of b p r c dr dc f'" "run_of b p r c (- dr) (- dc) g'"
      "k \<le> 1 + int f' + int g'"
      by (auto simp: axis_reaches_def d)
    moreover from this(1) f(2) have "f' = f" by (rule run_of_unique)
    moreover from \<open>run_of b p r c (- dr) (- dc) g'\<close> g(2) have "g' = g" by (rule run_of_unique)
    ultimately show "k \<le> 1 + int f + int g" by simp
  next
    assume "k \<le> 1 + int f + int g"
    with f(2) g(2) show "axis_reaches b p r c d k"
      by (auto simp: axis_reaches_def d)
  qed
  from Cons have IH: "check_axes b r c p (rows_count b) (cols_count b) k ds =
           Inr (\<exists>d \<in> set ds. axis_reaches b p r c d k)" by simp
  show ?case
    using f(1) g(1) here IH by (simp add: d)
qed

lemma directions_nonzero: "\<forall>d \<in> set directions. fst d \<noteq> 0 \<or> snd d \<noteq> 0"
  by (simp add: directions_def)

lemma check_win_last_move:
  assumes "rect (board s)" and "in_bounds (board s) r c"
    and "board s ! nat r ! nat c = p" and "p = ''X'' \<or> p = ''O''"
  shows "check_win_condition s (Some (r, c)) k =
           Inr (if \<exists>d \<in> set directions. axis_reaches (board s) p r c d k then Some p
                else if is_board_full (board s) then Some ''draw'' else None)"
  using assms(3,4)
  by (auto simp: check_win_condition_def cell_at_in_bounds [OF assms(2)]
        check_axes_iff [OF assms(1) directions_nonzero])

lemma all_equal_in_bounds:
  "\<forall>x \<in> set cells. in_bounds b (fst x) (snd x) \<Longrightarrow>
   all_equal b p cells = Inr (\<forall>x \<in> set cells. b ! nat (fst x) ! nat (snd x) = p)"
  by (induction cells) (auto simp: cell_at_in_bounds)

lemma set_line_cells:
  "set (line_cells r c dr dc k) = (\<lambda>i. (r + i * dr, c + i * dc)) ` {0..<k}"
proof -
  have "set (line_cells r c dr dc k) = (\<lambda>i. (r + int i * dr, c + int i * dc)) ` {0..<nat k}"
    by (simp add: line_cells_def)
  also have "\<dots> = (\<lambda>i. (r + i * dr, c + i * dc)) ` (int ` {0..<nat k})"
    by (simp only: image_image)
  also have "int ` {0..<nat k} = {0..<k}"
    by (cases "0 \<le> k") (simp_all add: image_int_atLeastLessThan)
  finally show ?thesis .
qed

lemma line_check:
  assumes "rect b" and "1 \<le> k" and "in_bounds b r c"
    and "dr \<in> {- 1, 0, 1}" and "dc \<in> {- 1, 0, 1}"
    and "g \<longleftrightarrow> in_bounds b (r + (k - 1) * dr) (c + (k - 1) * dc)"
  shows "(if g then all_equal b p (line_cells r c dr dc k) else Inr False) =
           Inr (k_line b k p r c (dr, dc))"
proof (cases g)
  case True
  have inb: "in_bounds b (r + i * dr) (c + i * dc)" if "i \<in> {0..<k}" for i
  proof -
    from that have i: "0 \<le> i" "i \<le> k - 1" by auto
    from assms(3) have o: "0 \<le> r" "r < rows_count b" "0 \<le> c" "c < cols_count b"
      by (simp_all add: rect_in_bounds [OF assms(1)])
    from True assms(6) have e: "0 \<le> r + (k - 1) * dr" "r + (k - 1) * dr < rows_count b"
      "0 \<le> c + (k - 1) * dc" "c + (k - 1) * dc < cols_count b"
      by (simp_all add: rect_in_bounds [OF assms(1)])
    have "0 \<le> r + i * dr \<and> r + i * dr < rows_count b"
      using assms(4) i o(1,2) e(1,2) by auto
    moreover have "0 \<le> c + i * dc \<and> c + i * dc < cols_count b"
      using assms(5) i o(3,4) e(3,4) by auto
    ultimately show ?thesis
      by (simp add: rect_in_bounds [OF assms(1)])
  qed
  then have "\<forall>x \<in> set (line_cells r c dr dc k). in_bounds b (fst x) (snd x)"
    by (auto simp: set_line_cells)
  from all_equal_in_bounds [OF this, of p] inb True show ?thesis
    by (auto simp: set_line_cells k_line_def holds_def)
next
  case False
  have "\<not> k_line b k p r c (dr, dc)"
  proof
    assume "k_line b k p r c (dr, dc)"
    moreover have "k - 1 \<in> {0..<k}" using assms(2) by simp
    ultimately have "holds b p (r + (k - 1) * dr) (c + (k - 1) * dc)"
      unfolding k_line_def by (metis fst_conv snd_conv)
    with False assms(6) show False by (simp add: holds_def)
  qed
  with False show ?thesis by simp
qed

lemma check_origin_iff:
  assumes "rect b" and "1 \<le> k" and "in_bounds b r c"
  shows "check_origin b k (rows_count b) (cols_count b) p r c =
           Inr (\<exists>d \<in> set directions. k_line b k p r c d)"
proof -
  from assms(3) have o: "0 \<le> r" "r < rows_count b" "0 \<le> c" "c < cols_count b"
    by (simp_all add: rect_in_bounds [OF assms(1)])
  have h: "(if c + k \<le> cols_count b then all_equal b p (line_cells r c 0 1 k) else Inr False) =
             Inr (k_line b k p r c (0, 1))"
    by (rule line_check [OF assms]) (use assms(2) o in \<open>auto simp: rect_in_bounds [OF assms(1)]\<close>)
  have v: "(if r + k \<le> rows_count b then all_equal b p (line_cells r c 1 0 k) else Inr False) =
             Inr (k_line b k p r c (1, 0))"
    by (rule line_check [OF assms]) (use assms(2) o in \<open>auto simp: rect_in_bounds [OF assms(1)]\<close>)
  have d: "(if r + k \<le> rows_count b \<and> c + k \<le> cols_count b
            then all_equal b p (line_cells r c 1 1 k) else Inr False) =
             Inr (k_line b k p r c (1, 1))"
    by (rule line_check [OF assms]) (use assms(2) o in \<open>auto simp: rect_in_bounds [OF assms(1)]\<close>)
  have a: "(if r + k \<le> rows_count b \<and> 0 \<le> c - k + 1
            then all_equal b p (line_cells r c 1 (- 1) k) else Inr False) =
             Inr (k_line b k p r c (1, - 1))"
    by (rule line_check [OF assms]) (use assms(2) o in \<open>auto simp: rect_in_bounds [OF assms(1)]\<close>)
  show ?thesis
    unfolding check_origin_def h v d a by (auto simp: directions_def split: bool.splits)
qed

lemma scan_board_find:
  assumes "rect b" and "1 \<le> k"
    and "\<forall>x \<in> set xs. in_bounds b (int (fst (snd x))) (int (snd (snd x)))"
  shows "scan_board b k (rows_count b) (cols_count b) xs =
           Inr (map_option fst
                  (find (\<lambda>(p, r, c). \<exists>d \<in> set directions. k_line b k p (int r) (int c) d) xs))"
  using assms(3)
proof (induction xs)
  case Nil
  then show ?case by simp
next
  case (Cons x xs)
  obtain p r c where x: "x = (p, r, c)" by (cases x)
  with Cons.prems have inb: "in_bounds b (int r) (int c)" by simp
  have origin: "\<not> (\<exists>d \<in> set directions. k_line b k p (int r) (int c) d)"
    if "b ! r ! c \<noteq> p"
  proof
    assume "\<exists>d \<in> set directions. k_line b k p (int r) (int c) d"
    then obtain d where "k_line b k p (int r) (int c) d" by blast
    moreover have "0 \<in> {0..<k}" using assms(2) by simp
    ultimately have "holds b p (int r + 0 * fst d) (int c + 0 * snd d)"
      unfolding k_line_def by blast
    with that show False by (simp add: holds_def)
  qed
  from Cons have IH: "scan_board b k (rows_count b) (cols_count b) xs =
           Inr (map_option fst
                  (find (\<lambda>(p, r, c). \<exists>d \<in> set directions. k_line b k p (int r) (int c) d) xs))"
    by simp
  show ?case
    using origin IH
    by (auto simp: x cell_at_in_bounds [OF inb] check_origin_iff [OF assms(1,2) inb]
          split: bool.splits)
qed

lemma set_scan_cells:
  "set (scan_cells b) = {0..<length b} \<times> {0..<nat (cols_count b)}"
  by (auto simp: scan_cells_def)

lemma scan_cells_in_bounds:
  assumes "rect b" and "x \<in> set (scan_cells b)"
  shows "in_bounds b (int (fst x)) (int (snd x))"
  using assms(2) by (auto simp: set_scan_cells rect_in_bounds [OF assms(1)] rows_count_def)

lemma k_run_scan:
  "k_run b k p \<longleftrightarrow>
     (\<exists>x \<in> set (scan_cells b). \<exists>d \<in> set directions. k_line b k p (int (fst x)) (int (snd x)) d)"
proof
  assume "k_run b k p"
  then obtain r c d where rc: "0 \<le> r" "r < rows_count b" "0 \<le> c" "c < cols_count b"
    and d: "d \<in> set directions" "k_line b k p r c d"
    by (auto simp: k_run_def)
  then have "(nat r, nat c) \<in> set (scan_cells b)"
    by (auto simp: set_scan_cells rows_count_def)
  with rc d show "\<exists>x \<in> set (scan_cells b). \<exists>d \<in> set directions.
      k_line b k p (int (fst x)) (int (snd x)) d"
    by (intro bexI [of _ "(nat r, nat c)"] bexI [of _ d]) auto
next
  assume "\<exists>x \<in> set (scan_cells b). \<exists>d \<in> set directions.
      k_line b k p (int (fst x)) (int (snd x)) d"
  then obtain x d where "x \<in> set (scan_cells b)" "d \<in> set directions"
    "k_line b k p (int (fst x)) (int (snd x)) d" by blast
  then show "k_run b k p"
    unfolding k_run_def
    by (intro bexI [of _ "int (fst x)"] bexI [of _ "int (snd x)"] bexI [of _ d])
       (auto simp: set_scan_cells rows_count_def)
qed

lemma find_scan_order:
  "map_option fst (find (\<lambda>(p, r, c). Q p r c) (scan_order b)) =
     (if \<exists>x \<in> set (scan_cells b). Q ''X'' (fst x) (snd x) then Some ''X''
      else if \<exists>x \<in> set (scan_cells b). Q ''O'' (fst x) (snd x) then Some ''O'' else None)"
proof -
  let ?P = "\<lambda>(p, r, c). Q p r c"
  have one: "map_option fst (find ?P (map (Pair q) ys)) =
       (if \<exists>x \<in> set ys. Q q (fst x) (snd x) then Some q else None)" for q ys
  proof (induction ys)
    case Nil
    then show ?case by simp
  next
    case (Cons y ys)
    show ?case
    proof (cases "Q q (fst y) (snd y)")
      case True
      then show ?thesis by (cases y) simp
    next
      case False
      with Cons show ?thesis by (cases y) simp
    qed
  qed
  have app: "map_option fst (find ?P (xs @ ys)) =
       (case map_option fst (find ?P xs) of None \<Rightarrow> map_option fst (find ?P ys) | Some q \<Rightarrow> Some q)"
    for xs ys
    by (induction xs) auto
  have "scan_order b = map (Pair ''X'') (scan_cells b) @ map (Pair ''O'') (scan_cells b)"
    by (simp add: scan_order_def)
  then show ?thesis
    by (simp only: app one) simp
qed


lemma check_full_board_eq:
  assumes "rect b" and "1 \<le> k"
  shows "check_full_board b k =
           Inr (if k_run b k ''X'' then Some ''X''
                else if k_run b k ''O'' then Some ''O''
                else if is_board_full b then Some ''draw'' else None)"
proof -
  have inb: "\<forall>x \<in> set (scan_order b). in_bounds b (int (fst (snd x))) (int (snd (snd x)))"
    using scan_cells_in_bounds [OF assms(1)] by (auto simp: scan_order_def)
  show ?thesis
    unfolding check_full_board_def scan_board_find [OF assms inb] find_scan_order k_run_scan
    by simp
qed

lemma run_lower_bound:
  assumes "run_of b p r c dr dc f" and "\<forall>i \<in> {1..int m}. holds b p (r + i * dr) (c + i * dc)"
  shows "m \<le> f"
proof (rule ccontr)
  assume "\<not> m \<le> f"
  then have "int f + 1 \<in> {1..int m}" by simp
  with assms(2) have "holds b p (r + (int f + 1) * dr) (c + (int f + 1) * dc)" by blast
  with assms(1) show False by (simp add: run_of_def)
qed

lemma run_exists:
  assumes "rect b" and "dr \<noteq> 0 \<or> dc \<noteq> 0"
  shows "\<exists>n. run_of b p r c dr dc n"
  using count_in_direction_run [OF assms] by blast

lemma k_line_through_reaches:
  assumes "rect b" and "d \<in> set directions" and "k_line b k p r0 c0 d"
    and "i0 \<in> {0..<k}" and "r = r0 + i0 * fst d" and "c = c0 + i0 * snd d"
  shows "axis_reaches b p r c d k"
proof -
  obtain dr dc where d: "d = (dr, dc)" by (cases d)
  from assms(2) have nz: "dr \<noteq> 0 \<or> dc \<noteq> 0" and nz': "- dr \<noteq> 0 \<or> - dc \<noteq> 0"
    by (auto simp: directions_def d)
  from run_exists [OF assms(1) nz] obtain f where f: "run_of b p r c dr dc f" by blast
  from run_exists [OF assms(1) nz'] obtain g where g: "run_of b p r c (- dr) (- dc) g" by blast
  from assms(3) have line: "\<And>i. 0 \<le> i \<Longrightarrow> i < k \<Longrightarrow> holds b p (r0 + i * dr) (c0 + i * dc)"
    by (simp add: k_line_def d)
  from assms(4) have i0: "0 \<le> i0" "i0 < k" by simp_all
  have "\<forall>i \<in> {1..int (nat (k - 1 - i0))}. holds b p (r + i * dr) (c + i * dc)"
  proof
    fix i assume "i \<in> {1..int (nat (k - 1 - i0))}"
    then have "0 \<le> i0 + i" "i0 + i < k" using i0 by auto
    from line [OF this] show "holds b p (r + i * dr) (c + i * dc)"
      by (simp add: assms(5,6) d algebra_simps)
  qed
  from run_lower_bound [OF f this] have fb: "k - 1 - i0 \<le> int f" by simp
  have "\<forall>i \<in> {1..int (nat i0)}. holds b p (r + i * (- dr)) (c + i * (- dc))"
  proof
    fix i assume "i \<in> {1..int (nat i0)}"
    then have "0 \<le> i0 - i" "i0 - i < k" using i0 by auto
    from line [OF this] show "holds b p (r + i * (- dr)) (c + i * (- dc))"
      by (simp add: assms(5,6) d algebra_simps)
  qed
  from run_lower_bound [OF g this] have gb: "i0 \<le> int g" by simp
  from fb gb have "k \<le> 1 + int f + int g" by simp
  with f g show ?thesis
    by (auto simp: axis_reaches_def d)
qed

lemma reaches_k_run:
  assumes "rect b" and "1 \<le> k" and "d \<in> set directions" and "holds b p r c"
    and "axis_reaches b p r c d k"
  shows "k_run b k p"
proof -
  obtain dr dc where d: "d = (dr, dc)" by (cases d)
  from assms(5) obtain f g where f: "run_of b p r c dr dc f"
    and g: "run_of b p r c (- dr) (- dc) g" and tot: "k \<le> 1 + int f + int g"
    by (auto simp: axis_reaches_def d)
  define g' where "g' = min (int g) (k - 1)"
  have g': "0 \<le> g'" "g' \<le> int g" "g' \<le> k - 1" "k - 1 - g' \<le> int f"
    using assms(2) tot by (auto simp: g'_def)
  have cells: "holds b p (r + j * dr) (c + j * dc)" if "- g' \<le> j" "j \<le> k - 1 - g'" for j
  proof -
    consider "j = 0" | "1 \<le> j" | "j \<le> - 1" by linarith
    then show ?thesis
    proof cases
      case 1
      with assms(4) show ?thesis by simp
    next
      case 2
      with that g' have "j \<in> {1..int f}" by simp
      with f show ?thesis unfolding run_of_def by blast
    next
      case 3
      with that g' have "- j \<in> {1..int g}" by simp
      with g have "holds b p (r + (- j) * (- dr)) (c + (- j) * (- dc))"
        unfolding run_of_def by blast
      then show ?thesis by simp
    qed
  qed
  have line: "k_line b k p (r - g' * dr) (c - g' * dc) d"
    unfolding k_line_def
  proof
    fix i assume "i \<in> {0..<k}"
    then have "- g' \<le> i - g'" "i - g' \<le> k - 1 - g'" by auto
    from cells [OF this] show "holds b p (r - g' * dr + i * fst d) (c - g' * dc + i * snd d)"
      by (simp add: d algebra_simps)
  qed
  have "holds b p (r - g' * dr) (c - g' * dc)"
    using cells [of "- g'"] g' assms(2) by simp
  then have "r - g' * dr \<in> {0..<rows_count b}" "c - g' * dc \<in> {0..<cols_count b}"
    by (auto simp: holds_def rect_in_bounds [OF assms(1)])
  with line assms(3) show ?thesis
    unfolding k_run_def by blast
qed

lemma cols_count_nth: "cols_count b = (if b = [] then 0 else int (length (b ! 0)))"
  by (cases b) (simp_all add: cols_count_def)

lemma place_Nil_iff [simp]: "place b r c v = [] \<longleftrightarrow> b = []"
  by (simp add: place_def)

lemma cols_count_place [simp]: "cols_count (place b r c v) = cols_count b"
  by (simp add: cols_count_nth)

lemma rows_count_place [simp]: "rows_count (place b r c v) = rows_count b"
  by (simp add: rows_count_def)

lemma rect_place: "rect b \<Longrightarrow> rect (place b r c v)"
  by (simp add: rect_def list_all_length)

lemma in_bounds_place [simp]: "in_bounds (place b r c v) x y \<longleftrightarrow> in_bounds b x y"
  by (simp add: in_bounds_def)

lemma holds_place:
  assumes "in_bounds b r c"
  shows "holds (place b r c v) q x y \<longleftrightarrow> (if x = r \<and> y = c then q = v else holds b q x y)"
proof (cases "in_bounds b x y")
  case False
  with assms show ?thesis by (auto simp: holds_def)
next
  case True
  with assms have "place b r c v ! nat x ! nat y = (if x = r \<and> y = c then v else b ! nat x ! nat y)"
    by (auto simp: place_def in_bounds_def nth_list_update)
  with True assms show ?thesis by (auto simp: holds_def)
qed

lemma new_runs_through_move:
  assumes "rect b" and "in_bounds b r c" and "\<not> k_run b k q" and "k_run (place b r c v) k q"
  shows "q = v \<and> (\<exists>d \<in> set directions. axis_reaches (place b r c v) v r c d k)"
proof -
  let ?b' = "place b r c v"
  from assms(4) obtain r0 c0 d where o: "r0 \<in> {0..<rows_count b}" "c0 \<in> {0..<cols_count b}"
    and d: "d \<in> set directions" and line: "k_line ?b' k q r0 c0 d"
    by (auto simp: k_run_def)
  have "\<exists>i \<in> {0..<k}. r0 + i * fst d = r \<and> c0 + i * snd d = c"
  proof (rule ccontr)
    assume "\<not> (\<exists>i \<in> {0..<k}. r0 + i * fst d = r \<and> c0 + i * snd d = c)"
    with line have "k_line b k q r0 c0 d"
      unfolding k_line_def by (auto simp: holds_place [OF assms(2)])
    with o d assms(3) show False
      unfolding k_run_def by blast
  qed
  then obtain i0 where i0: "i0 \<in> {0..<k}" "r = r0 + i0 * fst d" "c = c0 + i0 * snd d"
    by auto
  from line i0 have "holds ?b' q r c" by (auto simp: k_line_def)
  then have q: "q = v" by (simp add: holds_place [OF assms(2)])
  from k_line_through_reaches [OF rect_place [OF assms(1)] d line i0]
  show ?thesis using q d by blast
qed

lemma no_token_no_run:
  assumes "list_all (list_all (\<lambda>cell. cell = '' '' \<or> cell = ''-'')) b" and "1 \<le> k"
    and "q = ''X'' \<or> q = ''O''"
  shows "\<not> k_run b k q"
proof
  assume "k_run b k q"
  then obtain r c d where "k_line b k q r c d" by (auto simp: k_run_def)
  moreover have "0 \<in> {0..<k}" using assms(2) by simp
  ultimately have "holds b q (r + 0 * fst d) (c + 0 * snd d)"
    unfolding k_line_def by blast
  then have "in_bounds b r c" "b ! nat r ! nat c = q" by (simp_all add: holds_def)
  then have "q \<in> set (b ! nat r)" "b ! nat r \<in> set b"
    by (auto simp: in_bounds_def)
  with assms(1) have "q = '' '' \<or> q = ''-''"
    by (auto simp: list_all_iff)
  with assms(3) show False by auto
qed

lemma reachable_run_inv:
  assumes "reachable k s lm" and "1 \<le> k"
  shows "run_inv k s lm"
  using assms(1)
proof (induction rule: reachable.induct)
  case (start s)
  then show ?case
    by (simp add: run_inv_def no_token_no_run [OF _ assms(2)])
next
  case (move s prev r c s')
  from move.IH have rect: "rect (board s)" and w: "whose_move s = ''X'' \<or> whose_move s = ''O''"
    by (simp_all add: run_inv_def)
  have norun: "\<not> k_run (board s) k q" if "q = ''X'' \<or> q = ''O''" for q
  proof (cases prev)
    case None
    with move.IH that show ?thesis by (auto simp: run_inv_def)
  next
    case (Some mv)
    obtain r0 c0 where mv: "mv = (r0, c0)" by (cases mv)
    from move.IH Some mv have inb: "in_bounds (board s) r0 c0"
      and tok: "board s ! nat r0 ! nat c0 = ''X'' \<or> board s ! nat r0 ! nat c0 = ''O''"
      and runs: "k_run (board s) k q \<Longrightarrow>
                   \<exists>d \<in> set directions. axis_reaches (board s) (board s ! nat r0 ! nat c0) r0 c0 d k"
      using that by (auto simp: run_inv_def)
    from move.hyps(2) Some mv have "check_win_condition s (Some (r0, c0)) k = Inr None" by simp
    then have "\<not> (\<exists>d \<in> set directions. axis_reaches (board s) (board s ! nat r0 ! nat c0) r0 c0 d k)"
      unfolding check_win_last_move [OF rect inb refl tok] by (auto split: if_splits)
    with runs show ?thesis by blast
  qed
  from apply_move_in_bounds [OF move.hyps(3,4)]
  have b': "board s' = place (board s) r c (whose_move s)"
    and w': "whose_move s' = (if whose_move s = ''X'' then ''O'' else ''X'')" by simp_all
  have cell: "board s' ! nat r ! nat c = whose_move s"
    using holds_place [OF move.hyps(3), of "whose_move s" "whose_move s" r c]
    by (simp add: b' holds_def)
  have "q = whose_move s \<and> (\<exists>d \<in> set directions. axis_reaches (board s') q r c d k)"
    if "q = ''X'' \<or> q = ''O''" "k_run (board s') k q" for q
    using new_runs_through_move [OF rect move.hyps(3) norun [OF that(1)]] that(2)
    unfolding b' by blast
  then show ?case
    using rect w move.hyps(3) cell
    by (auto simp: run_inv_def b' w' rect_place)
qed

section \<open>The win detector: claims\<close>

text \<open>
  C4. On a rectangular board, for a last move that is in bounds and whose cell holds the
  mover's token \<open>p\<close> (\<open>X\<close> or \<open>O\<close>), the last-move win detector returns a result, and the
  result is the mover exactly when one of the four axes through the moved cell
  (horizontal, vertical, diagonal, anti-diagonal) totals at least \<open>k\<close>, the total being 1
  for the cell itself plus the contiguous cells holding \<open>p\<close> forward and backward.
\<close>

theorem last_move_win_iff_axis_total:
  assumes "rect (board s)" and "in_bounds (board s) r c"
    and "board s ! nat r ! nat c = p" and "p = ''X'' \<or> p = ''O''"
  shows "\<exists>res. check_win_condition s (Some (r, c)) k = Inr res \<and>
           (res = Some p \<longleftrightarrow> (\<exists>d \<in> set directions. axis_reaches (board s) p r c d k))"
  using assms(4) by (auto simp: check_win_last_move [OF assms])

theorem last_move_win_iff_axis_total_witness:
  "rect [[''X'', ''O'', '' ''], [''O'', ''X'', '' ''], ['' '', '' '', ''X'']] \<and>
   in_bounds [[''X'', ''O'', '' ''], [''O'', ''X'', '' ''], ['' '', '' '', ''X'']] 1 1 \<and>
   check_win_condition
     \<lparr>board = [[''X'', ''O'', '' ''], [''O'', ''X'', '' ''], ['' '', '' '', ''X'']],
      whose_move = ''O''\<rparr> (Some (1, 1)) 3 = Inr (Some ''X'') \<and>
   (\<exists>d \<in> set directions.
      axis_reaches [[''X'', ''O'', '' ''], [''O'', ''X'', '' ''], ['' '', '' '', ''X'']] ''X'' 1 1 d 3)"
proof -
  let ?b = "[[''X'', ''O'', '' ''], [''O'', ''X'', '' ''], ['' '', '' '', ''X'']]"
  let ?s = "\<lparr>board = ?b, whose_move = ''O''\<rparr>"
  have r: "rect (board ?s)" by (simp add: rect_def cols_count_def)
  have i: "in_bounds (board ?s) 1 1" by (simp add: in_bounds_def)
  have c: "board ?s ! nat 1 ! nat 1 = ''X''" by simp
  have w: "check_win_condition ?s (Some (1, 1)) 3 = Inr (Some ''X'')" by code_simp
  from last_move_win_iff_axis_total [OF r i c, of 3] w
  have "\<exists>d \<in> set directions. axis_reaches ?b ''X'' 1 1 d 3" by simp
  with r i w show ?thesis by simp
qed

text \<open>
  C10. When the cell addressed by the last move holds neither \<open>X\<close> nor \<open>O\<close> (an empty or
  forbidden cell, or any other string), the win detector returns \<open>None\<close> (ongoing) at once,
  whatever \<open>k\<close> and the rest of the board are: no axis is examined and the board-full test
  is not made.
\<close>

theorem non_token_cell_is_ongoing:
  assumes "cell_at (board s) r c = Inr t" and "t \<noteq> ''X''" and "t \<noteq> ''O''"
  shows "check_win_condition s (Some (r, c)) k = Inr None"
  using assms by (simp add: check_win_condition_def)

text \<open>
  The witness: a board that holds a completed row of \<open>X\<close>, queried at its forbidden
  square, is reported ongoing, while the full scan of the same board reports \<open>X\<close>.
\<close>

theorem non_token_cell_is_ongoing_witness:
  "cell_at [[''X'', ''X'', ''X''], [''O'', ''O'', ''-'']] 1 2 = Inr ''-'' \<and>
   check_win_condition \<lparr>board = [[''X'', ''X'', ''X''], [''O'', ''O'', ''-'']], whose_move = ''O''\<rparr>
     (Some (1, 2)) 3 = Inr None \<and>
   check_win_condition \<lparr>board = [[''X'', ''X'', ''X''], [''O'', ''O'', ''-'']], whose_move = ''O''\<rparr>
     None 3 = Inr (Some ''X'')"
proof -
  let ?s = "\<lparr>board = [[''X'', ''X'', ''X''], [''O'', ''O'', ''-'']], whose_move = ''O''\<rparr>"
  have c: "cell_at (board ?s) 1 2 = Inr ''-''" by code_simp
  have f: "check_win_condition ?s None 3 = Inr (Some ''X'')" by code_simp
  from non_token_cell_is_ongoing [OF c, of 3] c f show ?thesis by simp
qed




text \<open>
  C3. For every state reachable in play (with \<open>k \<ge> 1\<close>), the last-move variant, given the
  move just played, and the full-scan variant, given no move, return the same result
  among \<open>'X'\<close>, \<open>'O'\<close>, \<open>'draw'\<close> and \<open>None\<close>.
\<close>

theorem variants_agree_on_reachable:
  assumes "reachable k s (Some mv)" and "1 \<le> k"
  shows "check_win_condition s (Some mv) k = check_win_condition s None k"
proof -
  obtain r c where mv: "mv = (r, c)" by (cases mv)
  let ?b = "board s"
  let ?p = "?b ! nat r ! nat c"
  from reachable_run_inv [OF assms] have rect: "rect ?b" and inb: "in_bounds ?b r c"
    and tok: "?p = ''X'' \<or> ?p = ''O''"
    and runs: "\<And>q. q = ''X'' \<or> q = ''O'' \<Longrightarrow> k_run ?b k q \<Longrightarrow>
                 q = ?p \<and> (\<exists>d \<in> set directions. axis_reaches ?b q r c d k)"
    by (auto simp: run_inv_def mv)
  have last_move: "check_win_condition s (Some (r, c)) k =
      Inr (if \<exists>d \<in> set directions. axis_reaches ?b ?p r c d k then Some ?p
           else if is_board_full ?b then Some ''draw'' else None)"
    by (rule check_win_last_move [OF rect inb refl tok])
  have full_scan: "check_win_condition s None k =
      Inr (if k_run ?b k ''X'' then Some ''X''
           else if k_run ?b k ''O'' then Some ''O''
           else if is_board_full ?b then Some ''draw'' else None)"
    by (simp add: check_win_condition_def check_full_board_eq [OF rect assms(2)])
  show ?thesis
  proof (cases "\<exists>d \<in> set directions. axis_reaches ?b ?p r c d k")
    case True
    then obtain d where d: "d \<in> set directions" "axis_reaches ?b ?p r c d k" by blast
    have "holds ?b ?p r c" using inb by (simp add: holds_def)
    from reaches_k_run [OF rect assms(2) d(1) this d(2)] have run: "k_run ?b k ?p" .
    have other: "\<not> k_run ?b k q" if "q = ''X'' \<or> q = ''O''" "q \<noteq> ?p" for q
      using runs [OF that(1)] that(2) by blast
    from tok show ?thesis
    proof
      assume "?p = ''X''"
      with run True show ?thesis by (simp add: mv last_move full_scan)
    next
      assume o: "?p = ''O''"
      with other [of "''X''"] have "\<not> k_run ?b k ''X''" by simp
      with o run True show ?thesis by (simp add: mv last_move full_scan)
    qed
  next
    case False
    have "\<not> k_run ?b k q" if "q = ''X'' \<or> q = ''O''" for q
      using runs [OF that] False by blast
    then have "\<not> k_run ?b k ''X''" "\<not> k_run ?b k ''O''" by simp_all
    with False show ?thesis by (simp add: mv last_move full_scan)
  qed
qed

theorem variants_agree_on_reachable_witness:
  "reachable 2 \<lparr>board = [[''X'', ''O''], [''X'', ''-'']], whose_move = ''O''\<rparr> (Some (1, 0)) \<and>
   check_win_condition \<lparr>board = [[''X'', ''O''], [''X'', ''-'']], whose_move = ''O''\<rparr> (Some (1, 0)) 2 =
     Inr (Some ''X'') \<and>
   check_win_condition \<lparr>board = [[''X'', ''O''], [''X'', ''-'']], whose_move = ''O''\<rparr> None 2 =
     Inr (Some ''X'')"
proof -
  let ?s0 = "\<lparr>board = [['' '', '' ''], ['' '', ''-'']], whose_move = ''X''\<rparr>"
  let ?s1 = "\<lparr>board = [[''X'', '' ''], ['' '', ''-'']], whose_move = ''O''\<rparr>"
  let ?s2 = "\<lparr>board = [[''X'', ''O''], ['' '', ''-'']], whose_move = ''X''\<rparr>"
  let ?s3 = "\<lparr>board = [[''X'', ''O''], [''X'', ''-'']], whose_move = ''O''\<rparr>"
  have r0: "reachable 2 ?s0 None"
    by (rule reachable.start) (simp_all add: rect_def cols_count_def)
  have "apply_move ?s0 (0, 0) = Inr ?s1" by code_simp
  with r0 have r1: "reachable 2 ?s1 (Some (0, 0))"
    by (intro reachable.move [of 2 ?s0 None 0 0 ?s1]) (simp_all add: in_bounds_def)
  have "check_win_condition ?s1 (Some (0, 0)) 2 = Inr None" by code_simp
  moreover have "apply_move ?s1 (0, 1) = Inr ?s2" by code_simp
  ultimately have r2: "reachable 2 ?s2 (Some (0, 1))"
    using r1 by (intro reachable.move [of 2 ?s1 "Some (0, 0)" 0 1 ?s2]) (simp_all add: in_bounds_def)
  have "check_win_condition ?s2 (Some (0, 1)) 2 = Inr None" by code_simp
  moreover have "apply_move ?s2 (1, 0) = Inr ?s3" by code_simp
  ultimately have r3: "reachable 2 ?s3 (Some (1, 0))"
    using r2 by (intro reachable.move [of 2 ?s2 "Some (0, 1)" 1 0 ?s3]) (simp_all add: in_bounds_def)
  have "check_win_condition ?s3 (Some (1, 0)) 2 = Inr (Some ''X'')" by code_simp
  with r3 variants_agree_on_reachable [OF r3] show ?thesis by simp
qed

section \<open>The static evaluator\<close>

lemma all_lines_origins: "all_lines rows cols k = map (line_of k) (origins rows cols k)"
  by (simp add: all_lines_def origins_def line_of_def map_concat o_def)

lemma set_py_range [simp]: "set (py_range a b) = {a..<b}"
  by (auto simp: py_range_def)

lemma distinct_py_range [simp]: "distinct (py_range a b)"
  by (simp add: py_range_def)

lemma distinct_grid:
  assumes "distinct xs" and "distinct ys"
    and "\<And>x y x' y'. g x y = g x' y' \<Longrightarrow> x = x' \<and> y = y'"
  shows "distinct (concat (map (\<lambda>x. map (g x) ys) xs))"
  using assms(1)
proof (induction xs)
  case Nil
  then show ?case by simp
next
  case (Cons x xs)
  have "distinct (map (g x) ys)"
    using assms(2,3) by (auto simp: distinct_map inj_on_def)
  moreover have "set (map (g x) ys) \<inter> set (concat (map (\<lambda>x. map (g x) ys) xs)) = {}"
    using Cons.prems assms(3) by fastforce
  ultimately show ?case using Cons by simp
qed

lemma set_grid:
  "set (concat (map (\<lambda>x. map (g x) ys) xs)) = {g x y | x y. x \<in> set xs \<and> y \<in> set ys}"
  by auto

lemma distinct_origins: "distinct (origins rows cols k)"
proof -
  let ?H = "concat (map (\<lambda>r. map (\<lambda>c. (r, c, (0::int, 1::int))) (py_range 0 (cols - k + 1)))
              (py_range 0 rows))"
  let ?V = "concat (map (\<lambda>c. map (\<lambda>r. (r, c, (1::int, 0::int))) (py_range 0 (rows - k + 1)))
              (py_range 0 cols))"
  let ?D = "concat (map (\<lambda>r. map (\<lambda>c. (r, c, (1::int, 1::int))) (py_range 0 (cols - k + 1)))
              (py_range 0 (rows - k + 1)))"
  let ?A = "concat (map (\<lambda>r. map (\<lambda>c. (r, c, (1::int, - 1::int))) (py_range (k - 1) cols))
              (py_range 0 (rows - k + 1)))"
  have h: "distinct ?H" by (rule distinct_grid) simp_all
  have v: "distinct ?V" by (rule distinct_grid) simp_all
  have d: "distinct ?D" by (rule distinct_grid) simp_all
  have a: "distinct ?A" by (rule distinct_grid) simp_all
  have sh: "\<forall>x \<in> set ?H. snd (snd x) = (0, 1)" unfolding set_grid by auto
  have sv: "\<forall>x \<in> set ?V. snd (snd x) = (1, 0)" unfolding set_grid by auto
  have sd: "\<forall>x \<in> set ?D. snd (snd x) = (1, 1)" unfolding set_grid by auto
  have sa: "\<forall>x \<in> set ?A. snd (snd x) = (1, - 1)" unfolding set_grid by auto
  have "set ?H \<inter> set ?V = {}" "set ?H \<inter> set ?D = {}" "set ?H \<inter> set ?A = {}"
    "set ?V \<inter> set ?D = {}" "set ?V \<inter> set ?A = {}" "set ?D \<inter> set ?A = {}"
    using sh sv sd sa by fastforce+
  with h v d a show ?thesis
    unfolding origins_def by (simp only: distinct_append set_append) blast
qed

lemma read_cells_in_bounds:
  "\<forall>x \<in> set cells. in_bounds b (fst x) (snd x) \<Longrightarrow>
   read_cells b cells = Inr (map (\<lambda>x. b ! nat (fst x) ! nat (snd x)) cells)"
  by (induction cells) (auto simp: cell_at_in_bounds)

lemma read_lines_in_bounds:
  "\<forall>ln \<in> set lns. \<forall>x \<in> set ln. in_bounds b (fst x) (snd x) \<Longrightarrow>
   read_lines b lns = Inr (map (map (\<lambda>x. b ! nat (fst x) ! nat (snd x))) lns)"
  by (induction lns) (auto simp: read_cells_in_bounds)

lemma fold_add_sum_list:
  "fold (\<lambda>x (acc::int). acc + f x) xs a = a + sum_list (map f xs)"
  by (induction xs arbitrary: a) simp_all

lemma fits_iff:
  assumes "rect b" and "1 \<le> k" and "dr \<in> {- 1, 0, 1}" and "dc \<in> {- 1, 0, 1}"
  shows "fits b k r c (dr, dc) \<longleftrightarrow>
           in_bounds b r c \<and> in_bounds b (r + (k - 1) * dr) (c + (k - 1) * dc)"
proof
  assume f: "fits b k r c (dr, dc)"
  have "0 \<in> {0..<k}" "k - 1 \<in> {0..<k}" using assms(2) by simp_all
  with f have "in_bounds b (r + 0 * dr) (c + 0 * dc)"
    "in_bounds b (r + (k - 1) * dr) (c + (k - 1) * dc)"
    unfolding fits_def by (metis fst_conv snd_conv)+
  then show "in_bounds b r c \<and> in_bounds b (r + (k - 1) * dr) (c + (k - 1) * dc)" by simp
next
  assume e: "in_bounds b r c \<and> in_bounds b (r + (k - 1) * dr) (c + (k - 1) * dc)"
  then have o: "0 \<le> r" "r < rows_count b" "0 \<le> c" "c < cols_count b"
    and e: "0 \<le> r + (k - 1) * dr" "r + (k - 1) * dr < rows_count b"
      "0 \<le> c + (k - 1) * dc" "c + (k - 1) * dc < cols_count b"
    by (simp_all add: rect_in_bounds [OF assms(1)])
  show "fits b k r c (dr, dc)"
    unfolding fits_def
  proof
    fix i assume "i \<in> {0..<k}"
    then have i: "0 \<le> i" "i \<le> k - 1" by auto
    have "0 \<le> r + i * dr \<and> r + i * dr < rows_count b"
      using assms(3) i o(1,2) e(1,2) by auto
    moreover have "0 \<le> c + i * dc \<and> c + i * dc < cols_count b"
      using assms(4) i o(3,4) e(3,4) by auto
    ultimately show "in_bounds b (r + i * fst (dr, dc)) (c + i * snd (dr, dc))"
      by (simp add: rect_in_bounds [OF assms(1)])
  qed
qed

lemma set_origins:
  assumes "rect b" and "1 \<le> k"
  shows "set (origins (rows_count b) (cols_count b) k) = board_lines b k"
proof -
  have H: "(r, c, (0, 1)) \<in> board_lines b k \<longleftrightarrow>
             r \<in> {0..<rows_count b} \<and> c \<in> {0..<cols_count b - k + 1}" for r c
    using assms(2)
    by (auto simp: board_lines_def directions_def fits_iff [OF assms] rect_in_bounds [OF assms(1)])
  have V: "(r, c, (1, 0)) \<in> board_lines b k \<longleftrightarrow>
             c \<in> {0..<cols_count b} \<and> r \<in> {0..<rows_count b - k + 1}" for r c
    using assms(2)
    by (auto simp: board_lines_def directions_def fits_iff [OF assms] rect_in_bounds [OF assms(1)])
  have D: "(r, c, (1, 1)) \<in> board_lines b k \<longleftrightarrow>
             r \<in> {0..<rows_count b - k + 1} \<and> c \<in> {0..<cols_count b - k + 1}" for r c
    using assms(2)
    by (auto simp: board_lines_def directions_def fits_iff [OF assms] rect_in_bounds [OF assms(1)])
  have A: "(r, c, (1, - 1)) \<in> board_lines b k \<longleftrightarrow>
             r \<in> {0..<rows_count b - k + 1} \<and> c \<in> {k - 1..<cols_count b}" for r c
    using assms(2)
    by (auto simp: board_lines_def directions_def fits_iff [OF assms] rect_in_bounds [OF assms(1)])
  have dirs: "d = (0, 1) \<or> d = (1, 0) \<or> d = (1, 1) \<or> d = (1, - 1)"
    if "(r, c, d) \<in> board_lines b k" for r c d
    using that by (auto simp: board_lines_def directions_def)
  show ?thesis
  proof (intro set_eqI iffI)
    fix x assume "x \<in> set (origins (rows_count b) (cols_count b) k)"
    then show "x \<in> board_lines b k"
      unfolding origins_def set_append set_grid set_py_range
      using H V D A by blast
  next
    fix x assume x: "x \<in> board_lines b k"
    obtain r c d where [simp]: "x = (r, c, d)" by (cases x)
    from x have "(r, c, d) \<in> board_lines b k" by simp
    from dirs [OF this] consider "d = (0, 1)" | "d = (1, 0)" | "d = (1, 1)" | "d = (1, - 1)"
      by blast
    then show "x \<in> set (origins (rows_count b) (cols_count b) k)"
      unfolding origins_def set_append set_grid set_py_range
      using x H V D A by cases auto
  qed
qed

lemma count_list_map_upt:
  "count_list (map f [0..<n]) t = card {i. i < n \<and> f i = t}"
proof -
  have "count_list (map f [0..<n]) t = length (filter (\<lambda>i. f i = t) [0..<n])"
    by (induction n) simp_all
  also have "\<dots> = card {i. i < length [0..<n] \<and> f ([0..<n] ! i) = t}"
    by (rule length_filter_conv_card)
  also have "{i. i < length [0..<n] \<and> f ([0..<n] ! i) = t} = {i. i < n \<and> f i = t}"
    by auto
  finally show ?thesis .
qed

lemma count_line:
  "count_list (map (\<lambda>x. b ! nat (fst x) ! nat (snd x)) (line_of k (r, c, d))) t =
     cells_holding b k t (r, c, d)"
proof -
  let ?Q = "\<lambda>i::int. b ! nat (r + i * fst d) ! nat (c + i * snd d) = t"
  have "count_list (map (\<lambda>x. b ! nat (fst x) ! nat (snd x)) (line_of k (r, c, d))) t =
          card {i. i < nat k \<and> ?Q (int i)}"
    by (simp add: line_of_def line_cells_def o_def count_list_map_upt)
  also have "{j \<in> {0..<k}. ?Q j} = int ` {i. i < nat k \<and> ?Q (int i)}"
  proof (intro set_eqI iffI)
    fix j assume "j \<in> {j \<in> {0..<k}. ?Q j}"
    then have "nat j < nat k" "?Q (int (nat j))" "j = int (nat j)" by auto
    then show "j \<in> int ` {i. i < nat k \<and> ?Q (int i)}" by blast
  next
    fix j assume "j \<in> int ` {i. i < nat k \<and> ?Q (int i)}"
    then show "j \<in> {j \<in> {0..<k}. ?Q j}" by auto
  qed
  then have "card {i. i < nat k \<and> ?Q (int i)} = card {j \<in> {0..<k}. ?Q j}"
    by (simp add: card_image)
  finally show ?thesis by (simp add: cells_holding_def)
qed

lemma sequence_score_line:
  "sequence_score k p (map (\<lambda>x. b ! nat (fst x) ! nat (snd x)) (line_of k ln)) =
     line_value b k p ln"
proof -
  obtain r c d where ln: "ln = (r, c, d)" by (cases ln)
  define own where "own = int (cells_holding b k p (r, c, d))"
  define em where "em = cells_holding b k '' '' (r, c, d)"
  have one: "own = k - 1 \<Longrightarrow> em = 1 \<longleftrightarrow> own + int em = k" by auto
  have two: "own = k - 2 \<Longrightarrow> em = 2 \<longleftrightarrow> own + int em = k" by auto
  have "(if own = k then 1000
         else if own = k - 1 \<and> em = 1 then 50
         else if own = k - 2 \<and> em = 2 then 10 else (0::int)) =
        (if own = k then 1000
         else if own = k - 1 \<and> own + int em = k then 50
         else if own = k - 2 \<and> own + int em = k then 10 else 0)"
    using one two by auto
  then show ?thesis
    unfolding sequence_score_def line_value_def ln count_line own_def em_def .
qed

lemma line_of_in_bounds:
  assumes "ln \<in> board_lines b k" and "x \<in> set (line_of k ln)"
  shows "in_bounds b (fst x) (snd x)"
proof -
  obtain r c d where ln: "ln = (r, c, d)" by (cases ln)
  from assms(1) have "fits b k r c d" by (simp add: board_lines_def ln)
  with assms(2) show ?thesis
    by (auto simp: ln line_of_def set_line_cells fits_def)
qed

lemma get_all_possible_sequences_eq:
  assumes "rect (board s)" and "board s \<noteq> []" and "1 \<le> k"
  shows "get_all_possible_sequences s k =
           Inr (map (\<lambda>ln. map (\<lambda>x. board s ! nat (fst x) ! nat (snd x)) (line_of k ln))
                  (origins (rows_count (board s)) (cols_count (board s)) k))"
proof -
  from assms(2) obtain row0 rest where b: "board s = row0 # rest" by (cases "board s") auto
  have dims: "int (length (board s)) = rows_count (board s)"
    "int (length row0) = cols_count (board s)"
    by (simp_all add: rows_count_def cols_count_def b)
  have "\<forall>ln \<in> set (map (line_of k) (origins (rows_count (board s)) (cols_count (board s)) k)).
          \<forall>x \<in> set ln. in_bounds (board s) (fst x) (snd x)"
    using line_of_in_bounds [of _ "board s" k]
    by (auto simp: set_origins [OF assms(1,3)])
  from read_lines_in_bounds [OF this]
  have "read_lines (board s)
          (all_lines (rows_count (board s)) (cols_count (board s)) k) =
        Inr (map (\<lambda>ln. map (\<lambda>x. board s ! nat (fst x) ! nat (snd x)) (line_of k ln))
               (origins (rows_count (board s)) (cols_count (board s)) k))"
    by (simp only: all_lines_origins map_map o_def)
  moreover have "get_all_possible_sequences s k =
      read_lines (board s) (all_lines (rows_count (board s)) (cols_count (board s)) k)"
    by (simp add: get_all_possible_sequences_def b rows_count_def cols_count_def)
  ultimately show ?thesis by simp
qed

lemma count_sequences_eq:
  assumes "rect (board s)" and "board s \<noteq> []" and "1 \<le> gt_k (current_game_type ag)"
  shows "count_sequences ag s p = Inr (player_total (board s) (gt_k (current_game_type ag)) p)"
proof -
  let ?k = "gt_k (current_game_type ag)"
  let ?os = "origins (rows_count (board s)) (cols_count (board s)) ?k"
  have "sum_list (map (line_value (board s) ?k p) ?os) = sum (line_value (board s) ?k p) (set ?os)"
    by (rule sum_list_distinct_conv_sum_set [OF distinct_origins])
  then show ?thesis
    unfolding count_sequences_def get_all_possible_sequences_eq [OF assms]
    by (simp add: fold_add_sum_list o_def sequence_score_line player_total_def
          set_origins [OF assms(1,3)])
qed

text \<open>
  C6. On a well-formed state (a rectangular board with at least one row, and \<open>k \<ge> 1\<close>) the
  static evaluator returns a result and does not fail, and the result is the total of \<open>X\<close>
  minus the total of \<open>O\<close>, a player's total being the sum, over every length-\<open>k\<close> line of
  the board in the four orientations, of 1000 if all \<open>k\<close> cells are the player's, 50 if
  exactly \<open>k - 1\<close> are the player's and the remainder empty, 10 if exactly \<open>k - 2\<close> are
  the player's and the remainder empty, and 0 otherwise.
\<close>

theorem static_eval_is_weighted_line_count:
  assumes "rect (board s)" and "board s \<noteq> []" and "1 \<le> gt_k (current_game_type ag)"
  shows "static_eval ag s =
           Inr (player_total (board s) (gt_k (current_game_type ag)) ''X'' -
                player_total (board s) (gt_k (current_game_type ag)) ''O'')"
  by (simp add: static_eval_def count_sequences_eq [OF assms])

theorem static_eval_is_weighted_line_count_witness:
  "rect [[''X'', ''X'', '' ''], ['' '', ''O'', '' ''], ['' '', '' '', '' '']] \<and>
   static_eval (prepare \<lparr>gt_n = 3, gt_m = 3, gt_k = 3\<rparr> ''X'' example_draw)
     \<lparr>board = [[''X'', ''X'', '' ''], ['' '', ''O'', '' ''], ['' '', '' '', '' '']],
      whose_move = ''O''\<rparr> = Inr 40 \<and>
   player_total [[''X'', ''X'', '' ''], ['' '', ''O'', '' ''], ['' '', '' '', '' '']] 3 ''X'' -
   player_total [[''X'', ''X'', '' ''], ['' '', ''O'', '' ''], ['' '', '' '', '' '']] 3 ''O'' = 40"
proof -
  let ?b = "[[''X'', ''X'', '' ''], ['' '', ''O'', '' ''], ['' '', '' '', '' '']]"
  let ?s = "\<lparr>board = ?b, whose_move = ''O''\<rparr>"
  let ?ag = "prepare \<lparr>gt_n = 3, gt_m = 3, gt_k = 3\<rparr> ''X'' example_draw"
  have r: "rect (board ?s)" by (simp add: rect_def cols_count_def)
  have n: "board ?s \<noteq> []" by simp
  have k: "1 \<le> gt_k (current_game_type ?ag)" by (simp add: prepare_def init_zobrist_def)
  have e: "static_eval ?ag ?s = Inr 40" by code_simp
  from static_eval_is_weighted_line_count [OF r n k] e r show ?thesis
    by (simp add: prepare_def init_zobrist_def)
qed

section \<open>The position hash\<close>

lemma zobrist_loop_fold:
  "\<forall>x \<in> set cells. in_bounds b (int (fst x)) (int (snd x)) \<Longrightarrow>
   zobrist_loop keys b cells h = Inr (fold (\<lambda>x h. h XOR key_of keys x) (tokens_at b cells) h)"
  by (induction cells arbitrary: h) (auto simp: cell_at_in_bounds tokens_at_def key_of_def)

lemma distinct_scan_cells: "distinct (scan_cells b)"
  unfolding scan_cells_def by (rule distinct_grid) simp_all

lemma distinct_tokens_at: "distinct (tokens_at b (scan_cells b))"
  unfolding tokens_at_def
  by (auto simp: distinct_map distinct_scan_cells inj_on_def prod_eq_iff)

lemma set_tokens_at:
  assumes "rect b"
  shows "set (tokens_at b (scan_cells b)) = occupied b"
proof (intro set_eqI iffI)
  fix x assume "x \<in> set (tokens_at b (scan_cells b))"
  then obtain y where y: "y \<in> set (scan_cells b)"
    "b ! fst y ! snd y = ''X'' \<or> b ! fst y ! snd y = ''O''"
    "x = (int (fst y), int (snd y), b ! fst y ! snd y)"
    by (auto simp: tokens_at_def)
  from scan_cells_in_bounds [OF assms y(1)] y(2,3) show "x \<in> occupied b"
    by (auto simp: occupied_def)
next
  fix x assume "x \<in> occupied b"
  then obtain r c t where x: "x = (r, c, t)" "in_bounds b r c" "b ! nat r ! nat c = t"
    "t = ''X'' \<or> t = ''O''"
    by (auto simp: occupied_def)
  from x(2) have "(nat r, nat c) \<in> set (scan_cells b)"
    by (auto simp: set_scan_cells rect_in_bounds [OF assms] rows_count_def)
  moreover from x(2) have "0 \<le> r" "0 \<le> c" by (simp_all add: in_bounds_def)
  ultimately have "(int (fst (nat r, nat c)), int (snd (nat r, nat c)),
                    b ! fst (nat r, nat c) ! snd (nat r, nat c)) = x"
    "(nat r, nat c) \<in> set (filter (\<lambda>x. b ! fst x ! snd x = ''X'' \<or> b ! fst x ! snd x = ''O'')
                              (scan_cells b))"
    using x(1,3,4) by auto
  then show "x \<in> set (tokens_at b (scan_cells b))"
    unfolding tokens_at_def set_map by (rule image_eqI [OF sym])
qed

lemma xor_keys_enumeration:
  assumes "distinct xs" and "distinct ys" and "set xs = set ys"
  shows "xor_keys keys xs = xor_keys keys ys"
proof -
  from assms have "mset xs = mset ys"
    by (simp add: set_eq_iff_mset_eq_distinct)
  moreover have "(\<lambda>h. h XOR key_of keys x) \<circ> (\<lambda>h. h XOR key_of keys y) =
                 (\<lambda>h. h XOR key_of keys y) \<circ> (\<lambda>h. h XOR key_of keys x)" for x y
    by (simp add: fun_eq_iff ac_simps)
  ultimately have "fold (\<lambda>x h. h XOR key_of keys x) xs = fold (\<lambda>x h. h XOR key_of keys x) ys"
    by (intro fold_multiset_equiv) auto
  then show ?thesis by (simp add: xor_keys_def)
qed

lemma compute_zobrist_eq:
  assumes "rect (board s)"
  shows "compute_zobrist ag s = Inr (xor_keys (zobrist_keys ag) (tokens_at (board s) (scan_cells (board s))))"
  unfolding compute_zobrist_def xor_keys_def
  by (rule zobrist_loop_fold) (use scan_cells_in_bounds [OF assms] in blast)

lemma init_zobrist_key:
  assumes "rect b" and "rows_count b \<le> gt_n (current_game_type ag0)"
    and "cols_count b \<le> gt_m (current_game_type ag0)" and "x \<in> occupied b"
  shows "key_of (zobrist_keys (init_zobrist draw ag0)) x = draw x"
  using assms
  by (auto simp: occupied_def init_zobrist_def key_of_def rect_in_bounds)

text \<open>
  C7. On a rectangular board the hash of a state is the XOR, over the occupied cells in
  any order of enumeration, of the key of each (cell, token) pair, empty and forbidden
  cells contributing nothing; the key is the one \<open>init_zobrist\<close> drew for the pair when the
  board lies within the game's dimensions. Two states with the same occupied cells and
  tokens have the same hash, whatever moves produced them and whoever is to move; and
  the hash depends on nothing but the key table and the board, so hashing an unchanged
  state again gives the same value, whatever the search did to the agent in between.
\<close>

theorem zobrist_hash_is_xor_of_occupied_keys:
  fixes s :: "'a state_scheme"
  assumes "rect (board s)"
  shows "(\<forall>xs. distinct xs \<and> set xs = occupied (board s) \<longrightarrow>
            compute_zobrist ag s = Inr (xor_keys (zobrist_keys ag) xs)) \<and>
         (\<forall>draw ag0. zobrist_keys ag = zobrist_keys (init_zobrist draw ag0) \<and>
            rows_count (board s) \<le> gt_n (current_game_type ag0) \<and>
            cols_count (board s) \<le> gt_m (current_game_type ag0) \<longrightarrow>
            (\<forall>x \<in> occupied (board s). key_of (zobrist_keys ag) x = draw x)) \<and>
         (\<forall>s2 :: 'a state_scheme. rect (board s2) \<and> occupied (board s2) = occupied (board s) \<longrightarrow>
            compute_zobrist ag s2 = compute_zobrist ag s) \<and>
         (\<forall>ag2. \<forall>s2 :: 'a state_scheme. zobrist_keys ag2 = zobrist_keys ag \<and> board s2 = board s \<longrightarrow>
            compute_zobrist ag2 s2 = compute_zobrist ag s)"
proof (intro conjI allI impI ballI)
  fix xs assume "distinct xs \<and> set xs = occupied (board s)"
  then show "compute_zobrist ag s = Inr (xor_keys (zobrist_keys ag) xs)"
    unfolding compute_zobrist_eq [OF assms]
    using xor_keys_enumeration [OF distinct_tokens_at, of xs "board s" "zobrist_keys ag"]
    by (simp add: set_tokens_at [OF assms])
next
  fix draw ag0 x
  assume "zobrist_keys ag = zobrist_keys (init_zobrist draw ag0) \<and>
          rows_count (board s) \<le> gt_n (current_game_type ag0) \<and>
          cols_count (board s) \<le> gt_m (current_game_type ag0)"
    and "x \<in> occupied (board s)"
  then show "key_of (zobrist_keys ag) x = draw x"
    using init_zobrist_key [OF assms, of ag0 x draw] by simp
next
  fix s2 :: "'a state_scheme"
  assume a: "rect (board s2) \<and> occupied (board s2) = occupied (board s)"
  then have "xor_keys (zobrist_keys ag) (tokens_at (board s2) (scan_cells (board s2))) =
             xor_keys (zobrist_keys ag) (tokens_at (board s) (scan_cells (board s)))"
    by (intro xor_keys_enumeration distinct_tokens_at) (simp add: set_tokens_at assms)
  with a show "compute_zobrist ag s2 = compute_zobrist ag s"
    by (simp add: compute_zobrist_eq assms)
next
  fix ag2 :: agent and s2 :: "'a state_scheme"
  assume "zobrist_keys ag2 = zobrist_keys ag \<and> board s2 = board s"
  then show "compute_zobrist ag2 s2 = compute_zobrist ag s"
    by (simp add: compute_zobrist_def)
qed

theorem zobrist_hash_is_xor_of_occupied_keys_witness:
  "rect [[''X'', '' ''], ['' '', ''O'']] \<and>
   compute_zobrist (prepare \<lparr>gt_n = 2, gt_m = 2, gt_k = 2\<rparr> ''X'' example_draw)
     \<lparr>board = [[''X'', '' ''], ['' '', ''O'']], whose_move = ''X''\<rparr> =
     Inr (xor_keys (zobrist_keys (prepare \<lparr>gt_n = 2, gt_m = 2, gt_k = 2\<rparr> ''X'' example_draw))
            [(1, 1, ''O''), (0, 0, ''X'')]) \<and>
   xor_keys (zobrist_keys (prepare \<lparr>gt_n = 2, gt_m = 2, gt_k = 2\<rparr> ''X'' example_draw))
     [(1, 1, ''O''), (0, 0, ''X'')] = 513"
proof -
  let ?b = "[[''X'', '' ''], ['' '', ''O'']]"
  let ?s = "\<lparr>board = ?b, whose_move = ''X''\<rparr>"
  let ?ag = "prepare \<lparr>gt_n = 2, gt_m = 2, gt_k = 2\<rparr> ''X'' example_draw"
  have r: "rect (board ?s)" by (simp add: rect_def cols_count_def)
  have "tokens_at ?b (scan_cells ?b) = [(0, 0, ''X''), (1, 1, ''O'')]" by code_simp
  with set_tokens_at [of ?b] r have occ: "occupied (board ?s) = set [(0, 0, ''X''), (1, 1, ''O'')]"
    by simp
  have d: "distinct [(1, 1, ''O''), (0::int, 0::int, ''X'')] \<and>
           set [(1, 1, ''O''), (0, 0, ''X'')] = occupied (board ?s)"
    unfolding occ by auto
  have v: "xor_keys (zobrist_keys ?ag) [(1, 1, ''O''), (0, 0, ''X'')] = 513" by code_simp
  from zobrist_hash_is_xor_of_occupied_keys [OF r, of ?ag] d
  have "compute_zobrist ?ag ?s = Inr (xor_keys (zobrist_keys ?ag) [(1, 1, ''O''), (0, 0, ''X'')])"
    by blast
  with r v show ?thesis by simp
qed

section \<open>The move search\<close>

subsection \<open>Every child of the root is a leaf\<close>

text \<open>
  \<open>check_win_condition\<close> returns \<open>'X'\<close>, \<open>'O'\<close>, \<open>'draw'\<close> or \<open>None\<close>, never \<open>"No win"\<close>; so
  the comparison in \<open>is_terminal\<close> succeeds at the first cell that holds a token, and
  \<open>minimax\<close> on a state with a token on its board returns that state's static value
  without looking at \<open>pruning\<close>, \<open>alpha\<close>, \<open>beta\<close> or the transposition table.
\<close>

lemma scan_board_player:
  "scan_board b k rows cols xs = Inr (Some p) \<Longrightarrow> p \<in> fst ` set xs"
  by (induction xs) (auto split: sum.splits if_splits bool.splits)

lemma check_full_board_result:
  assumes "check_full_board b k = Inr res"
  shows "res = None \<or> res = Some ''X'' \<or> res = Some ''O'' \<or> res = Some ''draw''"
proof -
  have "p = ''X'' \<or> p = ''O''" if "scan_board b k (rows_count b) (cols_count b) (scan_order b) = Inr (Some p)" for p
    using scan_board_player [OF that] by (auto simp: scan_order_def)
  with assms show ?thesis
    by (auto simp: check_full_board_def split: sum.splits option.splits if_splits)
qed

lemma check_win_condition_result:
  assumes "check_win_condition s mv k = Inr res"
  shows "res = None \<or> res = Some ''X'' \<or> res = Some ''O'' \<or> res = Some ''draw''"
proof (cases mv)
  case None
  with assms check_full_board_result show ?thesis
    by (simp add: check_win_condition_def)
next
  case (Some x)
  with assms show ?thesis
    by (auto simp: check_win_condition_def split: prod.splits sum.splits if_splits bool.splits)
qed

lemma terminal_scan_token:
  assumes "x \<in> set cells"
    and "cell_at (board s) (int (fst x)) (int (snd x)) = Inr ''X'' \<or>
         cell_at (board s) (int (fst x)) (int (snd x)) = Inr ''O''"
  shows "terminal_scan s k cells \<noteq> Inr False"
  using assms(1)
proof (induction cells)
  case Nil
  then show ?case by simp
next
  case (Cons y cells)
  obtain r c where y: "y = (r, c)" by (cases y)
  show ?case
  proof (cases "cell_at (board s) (int r) (int c)")
    case (Inl e)
    then show ?thesis by (simp add: y)
  next
    case (Inr t)
    show ?thesis
    proof (cases "t = ''X'' \<or> t = ''O''")
      case True
      show ?thesis
      proof (cases "check_win_condition s (Some (int r, int c)) k")
        case (Inl e)
        with Inr True show ?thesis by (simp add: y)
      next
        case res: (Inr res)
        from check_win_condition_result [OF this] have "res \<noteq> Some ''No win''" by auto
        with Inr True res show ?thesis by (simp add: y)
      qed
    next
      case False
      with Inr assms(2) Cons.prems have "x \<in> set cells" by (auto simp: y)
      with Cons.IH Inr False show ?thesis by (simp add: y)
    qed
  qed
qed

lemma is_terminal_token: "has_token s \<Longrightarrow> is_terminal ag s \<noteq> Inr False"
  using terminal_scan_token [of _ "scan_cells (board s)" s "gt_k (current_game_type ag)"]
  by (auto simp: has_token_def is_terminal_def split: sum.splits bool.splits)

lemma minimax_token:
  assumes "has_token s"
  shows "minimax ag s d pruning alpha beta uz om =
           (if d = 0 then leaf_eval ag s
            else case is_terminal ag s of Inl e \<Rightarrow> Inl e | Inr t \<Rightarrow> leaf_eval ag s)"
  using is_terminal_token [OF assms, of ag]
  by (subst minimax.simps) (auto split: sum.splits bool.splits)

lemma leaf_eval_Fin: "leaf_eval ag s = Inr (v, ag1) \<Longrightarrow> \<exists>e. v = Fin e"
  by (auto simp: leaf_eval_def split: sum.splits)

lemma minimax_token_Fin:
  assumes "has_token s" and "minimax ag s d pruning alpha beta uz om = Inr (v, ag1)"
  shows "\<exists>e. v = Fin e"
  using assms(2) leaf_eval_Fin [of ag s v ag1]
  unfolding minimax_token [OF assms(1)]
  by (auto split: if_splits sum.splits)

lemma PosInf_le_iff [simp]: "PosInf \<le> x \<longleftrightarrow> x = PosInf"
  by (cases x) simp_all

lemma le_NegInf_iff [simp]: "x \<le> NegInf \<longleftrightarrow> x = NegInf"
  by (cases x) simp_all

lemma max_Fin_PosInf [simp]: "max a (Fin e) = PosInf \<longleftrightarrow> a = PosInf"
  by (cases a) (simp_all add: max_def)

lemma min_Fin_NegInf [simp]: "min a (Fin e) = NegInf \<longleftrightarrow> a = NegInf"
  by (cases a) (simp_all add: min_def)

lemma collect_moves_set:
  "collect_moves b cells = Inr ms \<Longrightarrow> mv \<in> set ms \<Longrightarrow>
   \<exists>x \<in> set cells. mv = (int (fst x), int (snd x)) \<and>
                    cell_at b (int (fst x)) (int (snd x)) = Inr '' ''"
  by (induction cells arbitrary: ms) (auto split: sum.splits if_splits)

lemma scan_cells_place [simp]: "scan_cells (place b r c v) = scan_cells b"
  by (simp add: scan_cells_def)

lemma cell_at_nonneg_in_bounds:
  "cell_at b (int r) (int c) = Inr t \<Longrightarrow> in_bounds b (int r) (int c)"
  by (auto simp: cell_at_addressable addressable_def in_bounds_def split: if_splits)

lemma child_has_token:
  assumes "get_available_moves s = Inr ms" and "mv \<in> set ms" and "apply_move s mv = Inr s'"
    and "whose_move s = ''X'' \<or> whose_move s = ''O''"
  shows "has_token s'"
proof -
  from collect_moves_set [OF assms(1) [unfolded get_available_moves_def] assms(2)]
  obtain x where x: "x \<in> set (scan_cells (board s))" "mv = (int (fst x), int (snd x))"
    "cell_at (board s) (int (fst x)) (int (snd x)) = Inr '' ''" by blast
  from cell_at_nonneg_in_bounds [OF x(3)] have inb: "in_bounds (board s) (int (fst x)) (int (snd x))" .
  from apply_move_in_bounds(2) [OF inb assms(3) [unfolded x(2)]]
  have b': "board s' = place (board s) (int (fst x)) (int (snd x)) (whose_move s)" .
  have "holds (board s') (whose_move s) (int (fst x)) (int (snd x))"
    unfolding b' by (simp add: holds_place [OF inb])
  then have "cell_at (board s') (int (fst x)) (int (snd x)) = Inr (whose_move s)"
    by (simp add: holds_def cell_at_in_bounds)
  with x(1) assms(4) show ?thesis
    unfolding has_token_def b' by (intro bexI [of _ x]) auto
qed

lemma root_loop_pruning:
  assumes "\<forall>x \<in> set cl. has_token (fst (snd x))"
    and "(side = ''X'' \<longrightarrow> beta = PosInf \<and> alpha \<noteq> PosInf) \<and>
         (side \<noteq> ''X'' \<longrightarrow> alpha = NegInf \<and> beta \<noteq> NegInf)"
  shows "root_loop ag side True uz ply cl alpha beta best bm =
         root_loop ag side False uz ply cl alpha beta best bm"
  using assms
proof (induction cl arbitrary: ag alpha beta best bm)
  case Nil
  then show ?case by simp
next
  case (Cons x cl)
  obtain mv c ev where x: "x = (mv, c, ev)" by (cases x)
  from Cons.prems(1) have tok: "has_token c" and rest: "\<forall>x \<in> set cl. has_token (fst (snd x))"
    by (simp_all add: x)
  have same: "minimax ag c (ply - 1) True alpha beta uz True =
              minimax ag c (ply - 1) False alpha beta uz True"
    by (simp add: minimax_token [OF tok])
  show ?case
  proof (cases "minimax ag c (ply - 1) False alpha beta uz True")
    case (Inl e)
    with same show ?thesis by (simp add: x)
  next
    case (Inr p)
    obtain v ag1 where p: "p = (v, ag1)" by (cases p)
    from minimax_token_Fin [OF tok Inr [unfolded p]] obtain e where v: "v = Fin e" by blast
    note IH = Cons.IH [OF rest]
    show ?thesis
    proof (cases "side = ''X''")
      case True
      with Cons.prems(2) have ab: "beta = PosInf" "alpha \<noteq> PosInf" by simp_all
      have "root_loop ag1 side True uz ply cl (max alpha v) beta v (Some mv) =
            root_loop ag1 side False uz ply cl (max alpha v) beta v (Some mv)"
        by (rule IH) (simp add: True ab v)
      moreover have "root_loop ag1 side True uz ply cl alpha beta best bm =
            root_loop ag1 side False uz ply cl alpha beta best bm"
        by (rule IH) (simp add: True ab)
      ultimately show ?thesis
        using same Inr True ab by (simp add: x p v)
    next
      case False
      with Cons.prems(2) have ab: "alpha = NegInf" "beta \<noteq> NegInf" by simp_all
      have "root_loop ag1 side True uz ply cl alpha (min beta v) v (Some mv) =
            root_loop ag1 side False uz ply cl alpha (min beta v) v (Some mv)"
        by (rule IH) (simp add: False ab v)
      moreover have "root_loop ag1 side True uz ply cl alpha beta best bm =
            root_loop ag1 side False uz ply cl alpha beta best bm"
        by (rule IH) (simp add: False ab)
      ultimately show ?thesis
        using same Inr False ab by (auto simp: x p v)
    qed
  qed
qed

lemma evaluated_children_have_tokens:
  assumes "get_available_moves s = Inr ms" and "evaluate_children ag s ms = Inr cl"
    and "whose_move s = ''X'' \<or> whose_move s = ''O''"
  shows "\<forall>x \<in> set (sort_children p cl). has_token (fst (snd x))"
proof
  fix x assume "x \<in> set (sort_children p cl)"
  then have "x \<in> set cl" by simp
  from evaluate_children_applied [OF assms(2) this]
  have "fst x \<in> set ms" "apply_move s (fst x) = Inr (fst (snd x))" by simp_all
  then show "has_token (fst (snd x))"
    by (rule child_has_token [OF assms(1) _ _ assms(3)])
qed

lemma root_search_pruning:
  assumes "whose_move s = ''X'' \<or> whose_move s = ''O''"
  shows "root_search ag s True uz ply = root_search ag s False uz ply"
proof (cases "get_available_moves s")
  case (Inl e)
  then show ?thesis by (simp add: root_search_def)
next
  case ms: (Inr ms)
  show ?thesis
  proof (cases "evaluate_children (reset_turn ag) s ms")
    case (Inl e)
    with ms show ?thesis by (simp add: root_search_def)
  next
    case (Inr cl)
    from root_loop_pruning [OF evaluated_children_have_tokens [OF ms Inr assms]]
    show ?thesis by (simp add: root_search_def ms Inr)
  qed
qed

text \<open>
  C1. For every state whose side to move is \<open>X\<close> or \<open>O\<close>, every agent, every ply depth and
  either setting of the transposition cache, the move-choice operation returns the same
  result (the same move, new state and root value, or the same failure) with alpha-beta
  pruning enabled as with pruning disabled.
\<close>

theorem pruning_preserves_root_choice:
  assumes "whose_move s = ''X'' \<or> whose_move s = ''O''"
  shows "make_move ag s True use_zobrist_hashing max_ply rnd =
         make_move ag s False use_zobrist_hashing max_ply rnd"
  by (simp add: make_move_def root_search_pruning [OF assms])

theorem pruning_preserves_root_choice_witness:
  "move_outcome (make_move (prepare \<lparr>gt_n = 3, gt_m = 3, gt_k = 3\<rparr> ''X'' example_draw)
      \<lparr>board = [[''X'', ''X'', '' ''], ['' '', ''O'', '' ''], ['' '', ''O'', '' '']], whose_move = ''X''\<rparr>
      True True 3 0) =
     Inr ((0, 2),
          \<lparr>board = [[''X'', ''X'', ''X''], ['' '', ''O'', '' ''], ['' '', ''O'', '' '']], whose_move = ''O''\<rparr>,
          Fin 1000) \<and>
   move_outcome (make_move (prepare \<lparr>gt_n = 3, gt_m = 3, gt_k = 3\<rparr> ''X'' example_draw)
      \<lparr>board = [[''X'', ''X'', '' ''], ['' '', ''O'', '' ''], ['' '', ''O'', '' '']], whose_move = ''X''\<rparr>
      False True 3 0) =
     Inr ((0, 2),
          \<lparr>board = [[''X'', ''X'', ''X''], ['' '', ''O'', '' ''], ['' '', ''O'', '' '']], whose_move = ''O''\<rparr>,
          Fin 1000)"
proof -
  let ?ag = "prepare \<lparr>gt_n = 3, gt_m = 3, gt_k = 3\<rparr> ''X'' example_draw"
  let ?s = "\<lparr>board = [[''X'', ''X'', '' ''], ['' '', ''O'', '' ''], ['' '', ''O'', '' '']], whose_move = ''X''\<rparr>"
  have w: "whose_move ?s = ''X'' \<or> whose_move ?s = ''O''" by simp
  have "move_outcome (make_move ?ag ?s True True 3 0) =
     Inr ((0, 2),
          \<lparr>board = [[''X'', ''X'', ''X''], ['' '', ''O'', '' ''], ['' '', ''O'', '' '']], whose_move = ''O''\<rparr>,
          Fin 1000)"
    by code_simp
  with pruning_preserves_root_choice [OF w, of ?ag True 3 0] show ?thesis by simp
qed

subsection \<open>When no move improves on the initial extreme\<close>

lemma available_move_applies:
  assumes "get_available_moves s = Inr ms" and "mv \<in> set ms"
  shows "\<exists>s'. apply_move s mv = Inr s'"
proof -
  from collect_moves_set [OF assms(1) [unfolded get_available_moves_def] assms(2)]
  obtain x where x: "mv = (int (fst x), int (snd x))"
    "cell_at (board s) (int (fst x)) (int (snd x)) = Inr '' ''" by blast
  then show ?thesis
    by (auto simp: apply_move_cases cell_at_addressable split: if_splits)
qed

lemma root_search_moves:
  "root_search ag s uab uz ply = Inr (ms, v, bm, ag1) \<Longrightarrow> get_available_moves s = Inr ms"
  by (auto simp: root_search_def split: sum.splits)

lemma root_loop_keeps_move:
  "root_loop ag side uab uz ply cl alpha beta best (Some m) = Inr (v, bm, ag1) \<Longrightarrow> bm \<noteq> None"
proof (induction cl arbitrary: ag alpha beta best m)
  case Nil
  then show ?case by auto
next
  case (Cons x cl)
  obtain mv c ev where x: "x = (mv, c, ev)" by (cases x)
  from Cons.prems obtain w ag2 where
    m: "minimax ag c (ply - 1) uab alpha beta uz True = Inr (w, ag2)"
    by (auto simp: x split: sum.splits)
  consider (direct) "bm \<noteq> None"
    | (loop) a' b' best' m' where
        "root_loop ag2 side uab uz ply cl a' b' best' (Some m') = Inr (v, bm, ag1)"
    using Cons.prems m by (auto simp: x split: if_splits)
  then show ?case
  proof cases
    case direct
    then show ?thesis .
  next
    case loop
    then show ?thesis by (rule Cons.IH)
  qed
qed

lemma root_loop_first_improves:
  assumes "root_loop ag side uab uz ply cl alpha beta best None = Inr (v, bm, ag1)"
    and "cl \<noteq> []" and "\<forall>x \<in> set cl. has_token (fst (snd x))"
    and "side = ''X'' \<and> best = NegInf \<or> side = ''O'' \<and> best = PosInf"
  shows "bm \<noteq> None"
proof -
  from assms(2) obtain mv c ev rest where cl: "cl = (mv, c, ev) # rest"
    by (cases cl) auto
  from assms(3) have tok: "has_token c" by (simp add: cl)
  from assms(1) obtain w ag2 where m: "minimax ag c (ply - 1) uab alpha beta uz True = Inr (w, ag2)"
    by (auto simp: cl split: sum.splits)
  from minimax_token_Fin [OF tok m] obtain e where w: "w = Fin e" by blast
  from assms(4) have "side = ''X'' \<and> best < w \<or> side = ''O'' \<and> w < best"
    by (auto simp: w less_val_def)
  with assms(1) m show ?thesis
    by (auto simp: cl split: if_splits dest: root_loop_keeps_move)
qed

lemma evaluate_children_length:
  "evaluate_children ag s ms = Inr cl \<Longrightarrow> length cl = length ms"
  by (induction ms arbitrary: cl) (auto split: sum.splits)

lemma root_search_improves:
  assumes "playing ag = ''X'' \<or> playing ag = ''O''"
    and "whose_move s = ''X'' \<or> whose_move s = ''O''"
    and "root_search ag s uab uz ply = Inr (ms, v, None, ag1)"
  shows "ms = []"
proof (rule ccontr)
  assume ne: "ms \<noteq> []"
  from root_search_moves [OF assms(3)] have ms: "get_available_moves s = Inr ms" .
  from assms(3) ms obtain cl where cl: "evaluate_children (reset_turn ag) s ms = Inr cl"
    and loop: "root_loop (reset_turn ag) (playing ag) uab uz ply (sort_children (playing ag) cl)
                 NegInf PosInf (if playing ag = ''X'' then NegInf else PosInf) None =
               Inr (v, None, ag1)"
    by (auto simp: root_search_def split: sum.splits)
  have "length (sort_children (playing ag) cl) = length cl"
    by (simp add: sort_children_def)
  with evaluate_children_length [OF cl] ne have "sort_children (playing ag) cl \<noteq> []"
    by auto
  from root_loop_first_improves [OF loop this evaluated_children_have_tokens [OF ms cl assms(2)]]
    assms(1)
  show False by auto
qed

text \<open>
  C2. \<open>self.playing\<close> is \<open>X\<close> or \<open>O\<close>, as set by \<open>prepare\<close>, and the side to move of the state
  is \<open>X\<close> or \<open>O\<close>. When the root search ends with no move that strictly improved on the
  initial extreme, there is no legal move and \<open>make_move\<close> raises the no-moves
  \<open>ValueError\<close>. A move that \<open>make_move\<close> returns is the best move of the root search, with
  its value. The result of \<open>make_move\<close> is the same for every outcome of the random draw:
  the \<open>random.choice(available_moves)\<close> of the source, which \<open>make_move\<close> models, is never
  what is returned. With no legal move \<open>make_move\<close> raises the no-moves \<open>ValueError\<close>.
\<close>

theorem no_improving_move_raises:
  assumes "playing ag = ''X'' \<or> playing ag = ''O''"
    and "whose_move s = ''X'' \<or> whose_move s = ''O''"
  shows "(\<forall>ms v ag1.
            root_search ag s use_alpha_beta use_zobrist_hashing max_ply = Inr (ms, v, None, ag1) \<longrightarrow>
              ms = [] \<and>
              make_move ag s use_alpha_beta use_zobrist_hashing max_ply rnd = Inl NoValidMoves) \<and>
         (\<forall>mv s' v ag1.
            make_move ag s use_alpha_beta use_zobrist_hashing max_ply rnd = Inr (mv, s', v, ag1) \<longrightarrow>
              (\<exists>ms. root_search ag s use_alpha_beta use_zobrist_hashing max_ply =
                      Inr (ms, v, Some mv, ag1))) \<and>
         (\<forall>rnd'. make_move ag s use_alpha_beta use_zobrist_hashing max_ply rnd' =
                  make_move ag s use_alpha_beta use_zobrist_hashing max_ply rnd) \<and>
         (get_available_moves s = Inr [] \<longrightarrow>
            make_move ag s use_alpha_beta use_zobrist_hashing max_ply rnd = Inl NoValidMoves)"
proof -
  let ?search = "root_search ag s use_alpha_beta use_zobrist_hashing max_ply"
  have none: "ms = []" if "?search = Inr (ms, v, None, ag1)" for ms v ag1
    using root_search_improves [OF assms that] .
  have raises: "make_move ag s use_alpha_beta use_zobrist_hashing max_ply r = Inl NoValidMoves"
    if "?search = Inr (ms, v, None, ag1)" for ms v ag1 r
    using that none [OF that] by (simp add: make_move_def)
  have chosen: "\<exists>ms. ?search = Inr (ms, v, Some mv, ag1)"
    if "make_move ag s use_alpha_beta use_zobrist_hashing max_ply rnd = Inr (mv, s', v, ag1)"
    for mv s' v ag1
  proof (cases ?search)
    case (Inl e)
    with that show ?thesis by (simp add: make_move_def)
  next
    case (Inr res)
    obtain ms w bm ag2 where res: "res = (ms, w, bm, ag2)" by (cases res)
    show ?thesis
    proof (cases bm)
      case None
      with Inr res raises that show ?thesis by simp
    next
      case (Some m)
      with Inr res that show ?thesis
        by (auto simp: make_move_def split: sum.splits)
    qed
  qed
  have same: "make_move ag s use_alpha_beta use_zobrist_hashing max_ply rnd' =
              make_move ag s use_alpha_beta use_zobrist_hashing max_ply rnd" for rnd'
  proof (cases ?search)
    case (Inl e)
    then show ?thesis by (simp add: make_move_def)
  next
    case (Inr res)
    obtain ms w bm ag2 where res: "res = (ms, w, bm, ag2)" by (cases res)
    show ?thesis
    proof (cases bm)
      case None
      with Inr res raises show ?thesis by simp
    next
      case (Some m)
      with Inr res show ?thesis by (simp add: make_move_def)
    qed
  qed
  have empty: "make_move ag s use_alpha_beta use_zobrist_hashing max_ply rnd = Inl NoValidMoves"
    if "get_available_moves s = Inr []"
    using that by (simp add: make_move_def root_search_def sort_children_def)
  from none raises chosen same empty show ?thesis by blast
qed

theorem no_improving_move_raises_witness:
  "playing (prepare \<lparr>gt_n = 1, gt_m = 2, gt_k = 2\<rparr> ''X'' example_draw) = ''X'' \<and>
   search_outcome (root_search (prepare \<lparr>gt_n = 1, gt_m = 2, gt_k = 2\<rparr> ''X'' example_draw)
      \<lparr>board = [[''X'', ''O'']], whose_move = ''X''\<rparr> True False 3) = Inr ([], NegInf, None) \<and>
   make_move (prepare \<lparr>gt_n = 1, gt_m = 2, gt_k = 2\<rparr> ''X'' example_draw)
     \<lparr>board = [[''X'', ''O'']], whose_move = ''X''\<rparr> True False 3 0 = Inl NoValidMoves \<and>
   move_outcome (make_move (prepare \<lparr>gt_n = 1, gt_m = 2, gt_k = 2\<rparr> ''X'' example_draw)
     \<lparr>board = [['' '', '' '']], whose_move = ''X''\<rparr> True False 3 1) =
     Inr ((0, 0), \<lparr>board = [[''X'', '' '']], whose_move = ''O''\<rparr>, Fin 50) \<and>
   search_outcome (root_search (prepare \<lparr>gt_n = 1, gt_m = 2, gt_k = 2\<rparr> ''X'' example_draw)
      \<lparr>board = [['' '', '' '']], whose_move = ''X''\<rparr> True False 3) =
     Inr ([(0, 0), (0, 1)], Fin 50, Some (0, 0))"
proof -
  let ?ag = "prepare \<lparr>gt_n = 1, gt_m = 2, gt_k = 2\<rparr> ''X'' example_draw"
  let ?full = "\<lparr>board = [[''X'', ''O'']], whose_move = ''X''\<rparr>"
  let ?open = "\<lparr>board = [['' '', '' '']], whose_move = ''X''\<rparr>"
  have p: "playing ?ag = ''X''" by (simp add: prepare_def init_zobrist_def)
  have so: "search_outcome (root_search ?ag ?full True False 3) = Inr ([], NegInf, None)"
    by code_simp
  then obtain ag1 where rs: "root_search ?ag ?full True False 3 = Inr ([], NegInf, None, ag1)"
    by (cases "root_search ?ag ?full True False 3") (auto simp: search_outcome_def)
  from no_improving_move_raises [of ?ag ?full True False 3 0] p rs
  have raises: "make_move ?ag ?full True False 3 0 = Inl NoValidMoves" by simp
  have mo: "move_outcome (make_move ?ag ?open True False 3 1) =
              Inr ((0, 0), \<lparr>board = [[''X'', '' '']], whose_move = ''O''\<rparr>, Fin 50)"
    by code_simp
  then obtain ag2 where mm: "make_move ?ag ?open True False 3 1 =
      Inr ((0, 0), \<lparr>board = [[''X'', '' '']], whose_move = ''O''\<rparr>, Fin 50, ag2)"
    by (cases "make_move ?ag ?open True False 3 1") (auto simp: move_outcome_def)
  from no_improving_move_raises [of ?ag ?open True False 3 1] p mm
  obtain ms where ro: "root_search ?ag ?open True False 3 = Inr (ms, Fin 50, Some (0, 0), ag2)"
    by auto
  from root_search_moves [OF ro] have "get_available_moves ?open = Inr ms" .
  moreover have "get_available_moves ?open = Inr [(0, 0), (0, 1)]" by code_simp
  ultimately have "ms = [(0, 0), (0, 1)]" by simp
  with ro have "search_outcome (root_search ?ag ?open True False 3) =
      Inr ([(0, 0), (0, 1)], Fin 50, Some (0, 0))"
    by (simp add: search_outcome_def)
  with p so raises mo show ?thesis by simp
qed

end
